theory Spec2Isabelle
  imports Main "HOL-Library.Word" "HOL-Library.Sublist"
begin

unbundle bit_operations_syntax

section \<open>The flood-relay engine of the cluster head (main.c)\<close>

text \<open>
  The store-and-forward engine of \<^verbatim>\<open>ble_aggregator/main.c\<close> keeps three global
  structures: the advertising buffer \<^verbatim>\<open>garr_userdata\<close> (16 blocks of 32 bytes, linked
  through bytes stored in the blocks themselves), the history buffer
  \<^verbatim>\<open>g_buff_adv_hist\<close> (a ring of 128 identifiers with a countdown) and the advertising
  packet handed to the SoftDevice. The globals become the fields of one record that every
  function takes and returns.

  Bytes are \<open>8 word\<close>. Positions, sizes and identifiers are \<open>nat\<close>: the source
  keeps them in \<^verbatim>\<open>uint8_t\<close>, \<^verbatim>\<open>uint16_t\<close> and \<^verbatim>\<open>uint32_t\<close> variables, and where a
  store into such a variable can truncate, the truncation is written out.
  The arrays are lists of their declared length; C gives no meaning to an access beyond
  them, so every theorem that depends on such an access being in range says so.
\<close>

type_synonym byte = "8 word"

definition CLUSTER_ID :: byte where
  "CLUSTER_ID = 5"

definition SINK_ID :: byte where
  "SINK_ID = 10"

definition MAX_USERDATA_BUFFER_BLOCK :: nat where
  "MAX_USERDATA_BUFFER_BLOCK = 16"

definition MAX_USERDATA_BUFFER_BLOCKSIZE :: nat where
  "MAX_USERDATA_BUFFER_BLOCKSIZE = 32"

definition MAX_HIST_ADV_BUFF_SIZE :: nat where
  "MAX_HIST_ADV_BUFF_SIZE = 128"

text \<open>\<^verbatim>\<open>adv_history_buff_t\<close>: an identifier \<^verbatim>\<open>0x00AABBCC\<close> and its countdown.\<close>

record adv_history_buff_t =
  ident :: nat
  TTL :: nat

text \<open>
  The globals. \<open>relay_data\<close> is the function-static array of
  \<^verbatim>\<open>vf_relay_adv_data3\<close>, which keeps its bytes between calls. \<open>adv_data_buf\<close>,
  \<open>org_adv_data_size\<close> and \<open>adv_len\<close> are the advertising packet
  (\<^verbatim>\<open>adv_packet.adv_data\<close>). \<open>uart_relay\<close> is what \<^verbatim>\<open>vf_relay_adv_data3\<close> prints
  for each packet it hands over (the block position and the bytes copied into the
  packet), and \<open>phone\<close> is what \<^verbatim>\<open>vf_app_adv_data_send_to_phone\<close> received.
\<close>

record node_state =
  garr_userdata :: "byte list"
  g_userdata_size :: nat
  g_userdata_lastpos :: nat
  g_userdata_firstpos :: nat
  g_userdata_currpos :: nat
  g_packetID :: byte
  g_buff_adv_hist :: "adv_history_buff_t list"
  g_buff_adv_hist_size :: nat
  g_buff_adv_hist_firstpos :: nat
  g_buff_adv_hist_lastpos :: nat
  relay_data :: "byte list"
  adv_data_buf :: "byte list"
  org_adv_data_size :: nat
  adv_len :: nat
  uart_relay :: "(nat \<times> byte list) list"
  phone :: "byte list list"

text \<open>\<^verbatim>\<open>memcpy(&dst[at], src, n)\<close> with \<open>src\<close> the \<open>n\<close> bytes copied.\<close>

fun memcpy :: "'a list \<Rightarrow> nat \<Rightarrow> 'a list \<Rightarrow> 'a list" where
  "memcpy dst at [] = dst"
| "memcpy dst at (x # xs) = memcpy (dst[at := x]) (Suc at) xs"

text \<open>The identifier \<^verbatim>\<open>(a<<16)+(b<<8)+c\<close> of three bytes; it is below \<open>2^24\<close>.\<close>

definition ids_of :: "byte \<Rightarrow> byte \<Rightarrow> byte \<Rightarrow> nat" where
  "ids_of a b c = unat a * 65536 + unat b * 256 + unat c"

subsection \<open>History buffer\<close>

text \<open>
  \<^verbatim>\<open>for(i=a;i<b;i++) if(id==g_buff_adv_hist[i].id) return i;\<close>
\<close>

definition hist_scan :: "adv_history_buff_t list \<Rightarrow> nat \<Rightarrow> nat \<Rightarrow> nat \<Rightarrow> nat option" where
  "hist_scan h idv a b = List.find (\<lambda>i. idv = ident (h ! i)) [a..<b]"

definition vf_find_id_buff_adv_hist3 :: "nat \<Rightarrow> node_state \<Rightarrow> nat" where
  "vf_find_id_buff_adv_hist3 idv s =
     (if g_buff_adv_hist_size s = 0 then 0xFFFF
      else if g_buff_adv_hist_firstpos s < g_buff_adv_hist_lastpos s then
        (case hist_scan (g_buff_adv_hist s) idv
                (g_buff_adv_hist_firstpos s) (g_buff_adv_hist_lastpos s) of
           Some i \<Rightarrow> i
         | None \<Rightarrow> 0xFFFF)
      else
        (case hist_scan (g_buff_adv_hist s) idv
                (g_buff_adv_hist_firstpos s) MAX_HIST_ADV_BUFF_SIZE of
           Some i \<Rightarrow> i
         | None \<Rightarrow>
            (case hist_scan (g_buff_adv_hist s) idv 0 (g_buff_adv_hist_lastpos s) of
               Some i \<Rightarrow> i
             | None \<Rightarrow> 0xFFFF)))"

text \<open>
  \<^verbatim>\<open>vf_add_buff_adv_hist3\<close>. \<^verbatim>\<open>++g_buff_adv_hist_lastpos\<close> is on a \<^verbatim>\<open>uint8_t\<close>.
  The result is the function's return value and the new state.
\<close>

definition vf_add_buff_adv_hist3 :: "nat \<Rightarrow> node_state \<Rightarrow> nat \<times> node_state" where
  "vf_add_buff_adv_hist3 ids s =
     (if vf_find_id_buff_adv_hist3 ids s \<noteq> 0xFFFF then (0xFFFF, s)
      else
        let h = (g_buff_adv_hist s)
                  [g_buff_adv_hist_lastpos s := \<lparr>ident = ids, TTL = 10\<rparr>];
            inc = (g_buff_adv_hist_lastpos s + 1) mod 256;
            lp = (if inc = MAX_HIST_ADV_BUFF_SIZE then 0 else inc);
            fp = (if g_buff_adv_hist_size s \<noteq> MAX_HIST_ADV_BUFF_SIZE
                  then g_buff_adv_hist_firstpos s else lp);
            sz = (if g_buff_adv_hist_size s < MAX_HIST_ADV_BUFF_SIZE
                  then g_buff_adv_hist_size s + 1 else g_buff_adv_hist_size s)
        in (sz, s\<lparr>g_buff_adv_hist := h, g_buff_adv_hist_lastpos := lp,
                  g_buff_adv_hist_firstpos := fp, g_buff_adv_hist_size := sz\<rparr>))"

subsection \<open>Advertising buffer\<close>

text \<open>
  A block of 32 bytes: byte 0 is 0 for a free block and \<^verbatim>\<open>0xFF\<close> for a used one,
  byte 1 the next block and byte 2 the previous one (\<^verbatim>\<open>0xFF\<close> for none), byte 3 the
  number of advertisements left, byte 4 the size of the broadcast data plus one, and the
  broadcast data from byte 5: source id, destination id, packet id, hop count, user data.
\<close>

definition blk :: "node_state \<Rightarrow> nat \<Rightarrow> nat \<Rightarrow> byte" where
  "blk s p k = garr_userdata s ! (p * MAX_USERDATA_BUFFER_BLOCKSIZE + k)"

text \<open>
  \<^verbatim>\<open>vf_add_packet_to_buffer3\<close>: 0 on success, 1 when the buffer is full. The size byte
  is a \<^verbatim>\<open>uint8_t\<close> store of \<^verbatim>\<open>userdata->size+1\<close>.
\<close>

definition vf_add_packet_to_buffer3 :: "byte list \<Rightarrow> node_state \<Rightarrow> nat \<times> node_state" where
  "vf_add_packet_to_buffer3 br_data s =
     (if g_userdata_size s < MAX_USERDATA_BUFFER_BLOCK then
        (case List.find (\<lambda>i. garr_userdata s ! (i * MAX_USERDATA_BUFFER_BLOCKSIZE) = 0)
                [0..<MAX_USERDATA_BUFFER_BLOCK] of
           None \<Rightarrow> (1, s)
         | Some pos \<Rightarrow>
            let b = pos * MAX_USERDATA_BUFFER_BLOCKSIZE;
                g = garr_userdata s;
                g1 = (if g_userdata_size s = 0
                      then g[b + 2 := 0xFF, b + 1 := 0xFF]
                      else g[g_userdata_lastpos s * MAX_USERDATA_BUFFER_BLOCKSIZE + 1 := of_nat pos,
                             b + 2 := of_nat (g_userdata_lastpos s),
                             b + 1 := 0xFF]);
                g2 = g1[b := 0xFF, b + 3 := 2, b + 4 := of_nat (length br_data + 1)];
                g3 = memcpy g2 (b + 5) br_data;
                s1 = (if g_userdata_size s = 0
                      then s\<lparr>g_userdata_currpos := pos, g_userdata_lastpos := pos,
                             g_userdata_firstpos := pos\<rparr>
                      else s\<lparr>g_userdata_lastpos := pos\<rparr>)
            in (0, s1\<lparr>garr_userdata := g3, g_userdata_size := g_userdata_size s + 1\<rparr>))
      else (1, s))"

text \<open>
  \<^verbatim>\<open>vf_delete_block_buffer3\<close>: unlink the block at \<^verbatim>\<open>g_userdata_currpos\<close>, and add its
  identifier to the history buffer when \<open>cond\<close> holds.
\<close>

definition vf_delete_block_buffer3 :: "bool \<Rightarrow> node_state \<Rightarrow> node_state" where
  "vf_delete_block_buffer3 cond s =
     (let pos1 = g_userdata_currpos s;
          pos = g_userdata_currpos s * MAX_USERDATA_BUFFER_BLOCKSIZE;
          g = garr_userdata s;
          ids = ids_of (g ! (pos + 5)) (g ! (pos + 6)) (g ! (pos + 7))
      in if g_userdata_size s = 0 then s
         else
           let s1 =
             (if g_userdata_size s = 1 then
                s\<lparr>garr_userdata := g[pos := 0, pos + 2 := 0xFF, pos + 1 := 0xFF],
                  g_userdata_firstpos := 0, g_userdata_currpos := 0,
                  g_userdata_lastpos := 0, g_userdata_size := 0\<rparr>
              else if pos1 = g_userdata_firstpos s then
                let nextpos = unat (g ! (pos + 1)) in
                s\<lparr>garr_userdata :=
                     g[pos := 0, pos + 2 := 0xFF, pos + 1 := 0xFF,
                       nextpos * MAX_USERDATA_BUFFER_BLOCKSIZE + 2 := 0xFF],
                  g_userdata_firstpos := nextpos, g_userdata_currpos := nextpos,
                  g_userdata_size := g_userdata_size s - 1\<rparr>
              else if pos1 = g_userdata_lastpos s then
                let prepos = unat (g ! (pos + 2)) in
                s\<lparr>garr_userdata :=
                     g[pos := 0, pos + 2 := 0xFF, pos + 1 := 0xFF,
                       prepos * MAX_USERDATA_BUFFER_BLOCKSIZE + 1 := 0xFF],
                  g_userdata_lastpos := prepos,
                  g_userdata_currpos := g_userdata_firstpos s,
                  g_userdata_size := g_userdata_size s - 1\<rparr>
              else
                let nextpos = unat (g ! (pos + 1));
                    prepos = unat (g ! (pos + 2)) in
                s\<lparr>garr_userdata :=
                     g[pos := 0, pos + 2 := 0xFF, pos + 1 := 0xFF,
                       nextpos * MAX_USERDATA_BUFFER_BLOCKSIZE + 2 := of_nat prepos,
                       prepos * MAX_USERDATA_BUFFER_BLOCKSIZE + 1 := of_nat nextpos],
                  g_userdata_currpos := nextpos,
                  g_userdata_size := g_userdata_size s - 1\<rparr>)
           in if cond then snd (vf_add_buff_adv_hist3 ids s1) else s1)"


text \<open>
  \<^verbatim>\<open>vf_stop_broadcast_data\<close>: 20 zero bytes over the user data of the advertising
  packet (the calls that stop and start the advertiser are the SoftDevice's).
\<close>

definition vf_stop_broadcast_data :: "node_state \<Rightarrow> node_state" where
  "vf_stop_broadcast_data s =
     s\<lparr>adv_data_buf := memcpy (adv_data_buf s) (org_adv_data_size s) (replicate 20 0)\<rparr>"

text \<open>
  The two branches of the loop body of \<^verbatim>\<open>vf_relay_adv_data3\<close>. The first one
  (size byte 0, an invalid block) deletes the block without adding it to the history
  buffer and stops the broadcast when the buffer became empty.
\<close>

definition vf_relay_adv_data3_invalid :: "node_state \<Rightarrow> node_state" where
  "vf_relay_adv_data3_invalid s =
     (let s1 = vf_delete_block_buffer3 False s
      in if g_userdata_size s1 = 0 then vf_stop_broadcast_data s1 else s1)"

text \<open>
  The second one first copies the block into \<open>relay_data\<close>, increases the hop count
  there, copies \<open>relay_size + 1\<close> bytes into the advertising packet, prints the packet
  and decrements byte 3 of the block (\<open>vf_relay_adv_data3_copy\<close>, up to the
  \<^verbatim>\<open>--\<close> in the condition). \<^verbatim>\<open>adv_packet.adv_data.len\<close> is a \<^verbatim>\<open>uint16_t\<close>.
\<close>

definition vf_relay_adv_data3_copy :: "node_state \<Rightarrow> node_state" where
  "vf_relay_adv_data3_copy s =
     (let pos = g_userdata_currpos s;
          b = pos * MAX_USERDATA_BUFFER_BLOCKSIZE;
          g = garr_userdata s;
          relay_size = g ! (b + 4);
          rd1 = (relay_data s)[0 := relay_size, 1 := 0xFF];
          rd2 = memcpy rd1 2 (take (unat relay_size - 1) (drop (b + 5) g));
          rd3 = rd2[5 := rd2 ! 5 + 1];
          buf = memcpy (adv_data_buf s) (org_adv_data_size s) (take (unat relay_size + 1) rd3);
          len = (org_adv_data_size s + unat relay_size + 1) mod 65536
      in s\<lparr>garr_userdata := g[b + 3 := g ! (b + 3) - 1],
           relay_data := rd3, adv_data_buf := buf, adv_len := len,
           uart_relay := uart_relay s @ [(pos, take len buf)]\<rparr>)"

text \<open>
  Then, when byte 3 has reached 0, the block is deleted and added to the history buffer;
  otherwise \<^verbatim>\<open>g_userdata_currpos\<close> moves on to the next block, or to the first one
  from the last.
\<close>

definition vf_relay_adv_data3_send :: "node_state \<Rightarrow> node_state" where
  "vf_relay_adv_data3_send s =
     (let s1 = vf_relay_adv_data3_copy s;
          pos = g_userdata_currpos s1
      in if garr_userdata s1 ! (pos * MAX_USERDATA_BUFFER_BLOCKSIZE + 3) = 0
         then vf_delete_block_buffer3 True s1
         else if g_userdata_currpos s1 = g_userdata_lastpos s1
         then s1\<lparr>g_userdata_currpos := g_userdata_firstpos s1\<rparr>
         else s1\<lparr>g_userdata_currpos :=
                   unat (garr_userdata s1 !
                           (g_userdata_currpos s1 * MAX_USERDATA_BUFFER_BLOCKSIZE + 1))\<rparr>)"

lemma vf_delete_block_buffer3_size:
  "0 < g_userdata_size s \<Longrightarrow>
   g_userdata_size (vf_delete_block_buffer3 False s) < g_userdata_size s"
  by (simp add: vf_delete_block_buffer3_def Let_def)

lemma vf_relay_adv_data3_invalid_size:
  "0 < g_userdata_size s \<Longrightarrow>
   g_userdata_size (vf_relay_adv_data3_invalid s) < g_userdata_size s"
  using vf_delete_block_buffer3_size [of s]
  by (simp add: vf_relay_adv_data3_invalid_def vf_stop_broadcast_data_def Let_def)

text \<open>
  \<^verbatim>\<open>vf_relay_adv_data3\<close>, the callback of the 200 ms timer: the loop runs while the
  buffer holds a block, and leaves at the first block it advertises.
\<close>

function vf_relay_adv_data3 :: "node_state \<Rightarrow> node_state" where
  "vf_relay_adv_data3 s =
     (if 0 < g_userdata_size s then
        (if garr_userdata s ! (g_userdata_currpos s * MAX_USERDATA_BUFFER_BLOCKSIZE + 4) = 0
         then vf_relay_adv_data3 (vf_relay_adv_data3_invalid s)
         else vf_relay_adv_data3_send s)
      else s)"
  by pat_completeness auto
termination
  by (relation "measure g_userdata_size") (simp_all add: vf_relay_adv_data3_invalid_size)

subsection \<open>Received advertisements\<close>

text \<open>
  \<^verbatim>\<open>vf_validate_relay_packet3\<close>. The local \<^verbatim>\<open>i\<close> is never assigned and the function
  returns \<^verbatim>\<open>i+8000\<close> as a \<^verbatim>\<open>uint16_t\<close> when the identifier is in the history buffer, so
  its value there is a parameter. The \<^verbatim>\<open>do ... while\<close> loop returns in both branches of
  its first pass: only the block at \<^verbatim>\<open>g_userdata_firstpos\<close> is compared.
\<close>

definition vf_validate_relay_packet3 :: "nat \<Rightarrow> byte list \<Rightarrow> node_state \<Rightarrow> nat" where
  "vf_validate_relay_packet3 i checkdata s =
     (let ids = ids_of (checkdata ! 0) (checkdata ! 1) (checkdata ! 2);
          pos = g_userdata_firstpos s
      in if vf_find_id_buff_adv_hist3 ids s \<noteq> 0xFFFF then (i + 8000) mod 65536
         else if g_userdata_size s = 0 then 0xFFFF
         else
           let temp_pos = pos * MAX_USERDATA_BUFFER_BLOCKSIZE + 5;
               g = garr_userdata s;
               cmp_data = ids_of (g ! temp_pos) (g ! (temp_pos + 1)) (g ! (temp_pos + 2))
           in if cmp_data = ids then pos else 0xFFFF)"

text \<open>
  \<^verbatim>\<open>vf_process_adv_command3\<close>: a new packet for this node goes to the phone and its
  identifier into the history buffer.
\<close>

definition vf_process_adv_command3 :: "nat \<Rightarrow> byte list \<Rightarrow> node_state \<Rightarrow> node_state" where
  "vf_process_adv_command3 i br_data s =
     (let ids = ids_of (br_data ! 0) (br_data ! 1) (br_data ! 2)
      in if vf_validate_relay_packet3 i br_data s = 0xFFFF
         then snd (vf_add_buff_adv_hist3 ids (s\<lparr>phone := phone s @ [br_data]\<rparr>))
         else s)"

definition vf_check_source :: "byte list \<Rightarrow> bool" where
  "vf_check_source data = (data ! 0 = CLUSTER_ID)"

definition vf_check_destination :: "byte list \<Rightarrow> bool" where
  "vf_check_destination data = (data ! 1 = CLUSTER_ID)"

text \<open>
  \<^verbatim>\<open>on_adv_report\<close>, from the point where the manufacturer specific data of a cluster
  head's advertisement has been found (\<open>userdata\<close>): the packet is dropped when it comes
  from this node, processed when it is for this node, and otherwise added to the
  advertising buffer unless \<^verbatim>\<open>vf_validate_relay_packet3\<close> finds it.
\<close>

definition on_adv_report :: "nat \<Rightarrow> byte list \<Rightarrow> node_state \<Rightarrow> node_state" where
  "on_adv_report i userdata s =
     (if vf_check_source userdata then s
      else if vf_check_destination userdata then vf_process_adv_command3 i userdata s
      else if vf_validate_relay_packet3 i userdata s = 0xFFFF
      then snd (vf_add_packet_to_buffer3 userdata s)
      else s)"

subsection \<open>Local events\<close>

text \<open>
  \<^verbatim>\<open>thingy_data_t\<close>. The three values of \<^verbatim>\<open>link_state\<close> that \<^verbatim>\<open>vf_adv_thingy_data\<close>
  distinguishes are an enumeration declared outside these sources, so the byte that
  stands for each is a parameter \<open>code\<close> of the function.
\<close>

datatype agg_node_link =
  AGG_NODE_LINK_CONNECTED | AGG_NODE_LINK_DISCONNECTED | AGG_NODE_LINK_DATA_UPDATE

record thingy_data_t =
  local_id :: byte
  link_state :: agg_node_link
  button :: byte
  temperature :: "16 word"
  pressure :: "32 word"
  humidity :: "16 word"

text \<open>The packet \<^verbatim>\<open>idata\<close> that \<^verbatim>\<open>vf_adv_thingy_data\<close> builds, with packet number \<open>n\<close>.\<close>

definition thingy_packet :: "(agg_node_link \<Rightarrow> byte) \<Rightarrow> thingy_data_t \<Rightarrow> byte \<Rightarrow> byte list" where
  "thingy_packet code d n =
     [CLUSTER_ID, SINK_ID, n, 0, code (link_state d), local_id d] @
     (case link_state d of
        AGG_NODE_LINK_CONNECTED \<Rightarrow> [0x12, 0x12, 0x00, 0x01, 0x02, 0x03, 0x00, 0x78, 0x0]
      | AGG_NODE_LINK_DISCONNECTED \<Rightarrow> []
      | AGG_NODE_LINK_DATA_UPDATE \<Rightarrow>
          [ucast (drop_bit 8 (temperature d)), ucast (temperature d),
           ucast (drop_bit 24 (pressure d)), ucast (drop_bit 16 (pressure d)),
           ucast (drop_bit 8 (pressure d)), ucast (pressure d),
           ucast (drop_bit 8 (humidity d)), ucast (humidity d),
           button d])"

text \<open>
  \<^verbatim>\<open>vf_adv_thingy_data\<close>: \<^verbatim>\<open>g_packetID++\<close> on a \<^verbatim>\<open>uint8_t\<close>, then
  \<^verbatim>\<open>vf_add_packet_to_buffer3\<close>, whose result is not looked at.
\<close>

definition vf_adv_thingy_data ::
    "(agg_node_link \<Rightarrow> byte) \<Rightarrow> thingy_data_t \<Rightarrow> node_state \<Rightarrow> node_state" where
  "vf_adv_thingy_data code d s =
     snd (vf_add_packet_to_buffer3 (thingy_packet code d (g_packetID s))
            (s\<lparr>g_packetID := g_packetID s + 1\<rparr>))"

text \<open>
  \<^verbatim>\<open>vf_start_broadcast_data\<close>, which the button handler calls on every second press:
  it adds a fixed packet of 18 bytes with packet number 3 to the advertising buffer and
  leaves \<^verbatim>\<open>g_packetID\<close> alone (stopping and starting the advertiser is the
  SoftDevice's).
\<close>

definition vf_start_broadcast_data :: "node_state \<Rightarrow> node_state" where
  "vf_start_broadcast_data s =
     snd (vf_add_packet_to_buffer3
            [CLUSTER_ID, SINK_ID, 0x3, 0x0, 0x1, 0x2, 0x3, 0x4, 5, 6, 7, 8, 9, 10, 11, 12, 13, 14]
            s)"


subsection \<open>Refreshing the history buffer\<close>

text \<open>
  The loops of \<^verbatim>\<open>vf_refresh_history_buff_callback\<close>, the callback of the 1 s timer.
  \<open>ttl_dec\<close> is \<^verbatim>\<open>for(i=a;i<b;i++) if(hist[i].TTL>0) hist[i].TTL--;\<close>, and
  \<open>ttl_scan\<close> is \<^verbatim>\<open>for(i=a;i<b;i++) if(hist[i].TTL==0) break;\<close> with the value of
  \<^verbatim>\<open>i\<close> after the loop.
\<close>

definition ttl_dec :: "adv_history_buff_t list \<Rightarrow> nat \<Rightarrow> nat \<Rightarrow> adv_history_buff_t list" where
  "ttl_dec h a b =
     fold (\<lambda>i h. if 0 < TTL (h ! i) then h[i := (h ! i)\<lparr>TTL := TTL (h ! i) - 1\<rparr>] else h)
       [a..<b] h"

definition ttl_scan :: "adv_history_buff_t list \<Rightarrow> nat \<Rightarrow> nat \<Rightarrow> nat" where
  "ttl_scan h a b =
     (case List.find (\<lambda>i. TTL (h ! i) = 0) [a..<b] of
        Some i \<Rightarrow> i
      | None \<Rightarrow> if a \<le> b then b else a)"

text \<open>
  The compaction loop
  \<^verbatim>\<open>for(j=a;j<b;j++) if(hist[j].TTL!=0) hist[i++]=hist[j]; else count++;\<close>
  on the triple of the array, \<^verbatim>\<open>i\<close> and \<^verbatim>\<open>count\<close>; the loop over the lower part
  of a wrapped buffer has \<^verbatim>\<open>if(i>=MAX_HIST_ADV_BUFF_SIZE) i=0;\<close> at the end of its body.
\<close>

definition compact ::
    "nat \<Rightarrow> nat \<Rightarrow> adv_history_buff_t list \<times> nat \<times> nat \<Rightarrow> adv_history_buff_t list \<times> nat \<times> nat" where
  "compact a b st =
     fold (\<lambda>j (h, i, c). if TTL (h ! j) \<noteq> 0 then (h[i := h ! j], i + 1, c) else (h, i, c + 1))
       [a..<b] st"

definition compact_wrap ::
    "nat \<Rightarrow> nat \<Rightarrow> adv_history_buff_t list \<times> nat \<times> nat \<Rightarrow> adv_history_buff_t list \<times> nat \<times> nat" where
  "compact_wrap a b st =
     fold (\<lambda>j (h, i, c).
             let (h1, i1, c1) =
                   (if TTL (h ! j) \<noteq> 0 then (h[i := h ! j], i + 1, c) else (h, i, c + 1))
             in (h1, if MAX_HIST_ADV_BUFF_SIZE \<le> i1 then 0 else i1, c1))
       [a..<b] st"

text \<open>
  The end of each compaction: \<^verbatim>\<open>g_buff_adv_hist_lastpos=i; g_buff_adv_hist_size-=count;\<close>,
  both stores into a \<^verbatim>\<open>uint8_t\<close>.
\<close>

definition refresh_store :: "adv_history_buff_t list \<times> nat \<times> nat \<Rightarrow> node_state \<Rightarrow> node_state" where
  "refresh_store st s =
     (case st of (h, i, c) \<Rightarrow>
        s\<lparr>g_buff_adv_hist := h, g_buff_adv_hist_lastpos := i mod 256,
          g_buff_adv_hist_size := nat ((int (g_buff_adv_hist_size s) - int c) mod 256)\<rparr>)"

text \<open>
  \<^verbatim>\<open>vf_refresh_history_buff_callback\<close>. In the last branch (a wrapped buffer with no
  expired entry in its upper part) the search loop tests \<^verbatim>\<open>g_buff_adv_hist[j].TTL\<close>,
  and \<^verbatim>\<open>j\<close> has not been assigned on that path: its value is the parameter \<open>j\<close>.
\<close>

definition vf_refresh_history_buff_callback :: "nat \<Rightarrow> node_state \<Rightarrow> node_state" where
  "vf_refresh_history_buff_callback j s =
     (let fp = g_buff_adv_hist_firstpos s;
          lp = g_buff_adv_hist_lastpos s
      in if g_buff_adv_hist_size s = 0 then s
         else if fp < lp then
           let h1 = ttl_dec (g_buff_adv_hist s) fp lp;
               i = ttl_scan h1 fp lp
           in if i \<noteq> lp then refresh_store (compact (i + 1) lp (h1, i, 1)) s
              else s\<lparr>g_buff_adv_hist := h1\<rparr>
         else
           let h1 = ttl_dec (ttl_dec (g_buff_adv_hist s) fp MAX_HIST_ADV_BUFF_SIZE) 0 lp;
               i = ttl_scan h1 fp MAX_HIST_ADV_BUFF_SIZE
           in if i \<noteq> MAX_HIST_ADV_BUFF_SIZE then
                refresh_store
                  (compact_wrap 0 lp (compact (i + 1) MAX_HIST_ADV_BUFF_SIZE (h1, i, 1))) s
              else
                let i = (case List.find (\<lambda>i. TTL (h1 ! j) = 0) [0..<lp] of
                           Some i \<Rightarrow> i | None \<Rightarrow> lp)
                in if i \<noteq> lp then refresh_store (compact (i + 1) lp (h1, i, 1)) s
                   else s\<lparr>g_buff_adv_hist := h1\<rparr>)"

subsection \<open>The node as a whole\<close>

text \<open>
  The state \<^verbatim>\<open>main\<close> sets up before the timers start: both buffers zeroed, and the
  advertising packet holding the encoded flags and name (\<open>enc\<close>, encoded by the
  SoftDevice's library) followed by 20 zero bytes (\<^verbatim>\<open>advertising_data_set\<close>;
  \<^verbatim>\<open>ADV_MAX_LENGTH\<close> is 31).
\<close>

definition boot :: "byte list \<Rightarrow> node_state" where
  "boot enc =
     \<lparr>garr_userdata = replicate 512 0, g_userdata_size = 0, g_userdata_lastpos = 0,
      g_userdata_firstpos = 0, g_userdata_currpos = 0, g_packetID = 0,
      g_buff_adv_hist = replicate 128 \<lparr>ident = 0, TTL = 0\<rparr>,
      g_buff_adv_hist_size = 0, g_buff_adv_hist_firstpos = 0, g_buff_adv_hist_lastpos = 0,
      relay_data = replicate 32 0,
      adv_data_buf = enc @ replicate (31 - length enc) 0,
      org_adv_data_size = length enc, adv_len = length enc + 20,
      uart_relay = [], phone = []\<rparr>"

text \<open>
  The events the single-threaded loop serves: a received advertisement, a local event,
  the 200 ms advertising timer, the 1 s history timer and the button press that reaches
  \<^verbatim>\<open>vf_start_broadcast_data\<close>. \<open>Receive i\<close> and \<open>Refresh j\<close> carry the values of
  the unassigned locals.
\<close>

datatype event =
  Receive nat "byte list"
| Submit thingy_data_t
| Relay
| Refresh nat
| Button

definition step :: "(agg_node_link \<Rightarrow> byte) \<Rightarrow> event \<Rightarrow> node_state \<Rightarrow> node_state" where
  "step code e s =
     (case e of
        Receive i userdata \<Rightarrow> on_adv_report i userdata s
      | Submit d \<Rightarrow> vf_adv_thingy_data code d s
      | Relay \<Rightarrow> vf_relay_adv_data3 s
      | Refresh j \<Rightarrow> vf_refresh_history_buff_callback j s
      | Button \<Rightarrow> vf_start_broadcast_data s)"

primrec run :: "(agg_node_link \<Rightarrow> byte) \<Rightarrow> event list \<Rightarrow> node_state \<Rightarrow> node_state" where
  "run code [] s = s"
| "run code (e # es) s = run code es (step code e s)"


subsection \<open>Values used in the examples\<close>

text \<open>One assignment of bytes to the three link states, and one Thingy reading.\<close>

definition link_code0 :: "agg_node_link \<Rightarrow> byte" where
  "link_code0 l =
     (case l of AGG_NODE_LINK_CONNECTED \<Rightarrow> 1
      | AGG_NODE_LINK_DISCONNECTED \<Rightarrow> 2
      | AGG_NODE_LINK_DATA_UPDATE \<Rightarrow> 3)"

definition thingy0 :: thingy_data_t where
  "thingy0 = \<lparr>local_id = 0, link_state = AGG_NODE_LINK_CONNECTED, button = 0,
     temperature = 0, pressure = 0, humidity = 0\<rparr>"

subsection \<open>Well-formed buffers\<close>

text \<open>
  The byte at offset \<open>k\<close> of block \<open>p\<close> has the address \<open>adr p k\<close>; a block is used
  when its byte 0 is not 0. \<open>free_slot\<close> is the search of \<^verbatim>\<open>vf_add_packet_to_buffer3\<close>
  for the block it takes: the first free one.
\<close>

definition adr :: "nat \<Rightarrow> nat \<Rightarrow> nat" where
  "adr p k = p * 32 + k"

definition used :: "node_state \<Rightarrow> nat \<Rightarrow> bool" where
  "used s p \<longleftrightarrow> blk s p 0 \<noteq> 0"

definition free_slot :: "node_state \<Rightarrow> nat option" where
  "free_slot s =
     List.find (\<lambda>i. garr_userdata s ! (i * MAX_USERDATA_BUFFER_BLOCKSIZE) = 0)
       [0..<MAX_USERDATA_BUFFER_BLOCK]"

text \<open>
  The advertising buffer is well formed when the used blocks are exactly the blocks of one
  list without repetition, linked through bytes 1 and 2 in the order of the list, that
  starts at \<^verbatim>\<open>g_userdata_firstpos\<close>, ends at \<^verbatim>\<open>g_userdata_lastpos\<close>, has
  \<^verbatim>\<open>g_userdata_size\<close> blocks and contains \<^verbatim>\<open>g_userdata_currpos\<close>. \<open>chain\<close> reads that
  list off the buffer by following byte 1 from the first block.
\<close>

fun linked :: "(nat \<Rightarrow> nat \<Rightarrow> byte) \<Rightarrow> nat list \<Rightarrow> bool" where
  "linked f [] = True"
| "linked f [p] = True"
| "linked f (p # q # c) = (unat (f p 1) = q \<and> unat (f q 2) = p \<and> linked f (q # c))"

definition pool_chain :: "node_state \<Rightarrow> nat list \<Rightarrow> bool" where
  "pool_chain s c \<longleftrightarrow>
     length (garr_userdata s) = 512 \<and> linked (blk s) c \<and> distinct c \<and>
     list_all (\<lambda>p. p < 16) c \<and> length c = g_userdata_size s \<and>
     list_all (\<lambda>p. used s p = (p \<in> set c)) [0..<16] \<and>
     (c \<noteq> [] \<longrightarrow>
        hd c = g_userdata_firstpos s \<and> last c = g_userdata_lastpos s \<and>
        g_userdata_currpos s \<in> set c)"

fun follow :: "(nat \<Rightarrow> nat \<Rightarrow> byte) \<Rightarrow> nat \<Rightarrow> nat \<Rightarrow> nat list" where
  "follow f p 0 = []"
| "follow f p (Suc n) = p # follow f (unat (f p 1)) n"

definition chain :: "node_state \<Rightarrow> nat list" where
  "chain s = follow (blk s) (g_userdata_firstpos s) (g_userdata_size s)"

definition pool_wf :: "node_state \<Rightarrow> bool" where
  "pool_wf s = pool_chain s (chain s)"

text \<open>
  \<open>blocks_ok\<close>: every used block has a size byte and a number of advertisements left
  that are not 0, as \<^verbatim>\<open>vf_add_packet_to_buffer3\<close> leaves them. \<open>blk_ids\<close> is the
  identifier of a block as \<^verbatim>\<open>vf_delete_block_buffer3\<close> computes it, and \<open>identity\<close>
  the three bytes it is made of: source id, destination id and packet number.
\<close>

definition blocks_ok :: "node_state \<Rightarrow> bool" where
  "blocks_ok s \<longleftrightarrow>
     list_all (\<lambda>p. used s p \<longrightarrow> blk s p 4 \<noteq> 0 \<and> blk s p 3 \<noteq> 0) [0..<16]"

definition blk_ids :: "node_state \<Rightarrow> nat \<Rightarrow> nat" where
  "blk_ids s p = ids_of (blk s p 5) (blk s p 6) (blk s p 7)"

definition identity :: "node_state \<Rightarrow> nat \<Rightarrow> byte \<times> byte \<times> byte" where
  "identity s p = (blk s p 5, blk s p 6, blk s p 7)"

text \<open>
  The broadcast data a block holds, as \<^verbatim>\<open>vf_relay_adv_data3\<close> reads it: the bytes from
  offset 5, one fewer than the size byte says (source id, destination id, packet number,
  hop count, user data).
\<close>

definition record_bytes :: "node_state \<Rightarrow> nat \<Rightarrow> byte list" where
  "record_bytes s p = map (\<lambda>k. blk s p (5 + k)) [0..<unat (blk s p 4) - 1]"

text \<open>
  \<open>adv_ok\<close>: \<^verbatim>\<open>relay_data\<close> and the advertising packet have their declared lengths
  (32 and \<^verbatim>\<open>ADV_MAX_LENGTH\<close> = 31 bytes), and the broadcast data of every used block fits
  its block and, behind the encoded flags and name, the advertising packet. Then the two
  \<^verbatim>\<open>memcpy\<close> calls of \<^verbatim>\<open>vf_relay_adv_data3\<close> stay inside the arrays.
\<close>

definition adv_ok :: "node_state \<Rightarrow> bool" where
  "adv_ok s \<longleftrightarrow>
     length (relay_data s) = 32 \<and> length (adv_data_buf s) = 31 \<and>
     list_all (\<lambda>p. used s p \<longrightarrow>
                  unat (blk s p 4) \<le> 28 \<and> org_adv_data_size s + unat (blk s p 4) + 1 \<le> 31)
       [0..<16]"

text \<open>
  The history buffer is well formed when its indices are inside the array and
  \<^verbatim>\<open>g_buff_adv_hist_lastpos\<close> lies \<^verbatim>\<open>g_buff_adv_hist_size\<close> entries after
  \<^verbatim>\<open>g_buff_adv_hist_firstpos\<close> around the ring. \<open>hist_live\<close> lists its entries from the
  oldest to the newest, \<open>in_hist\<close> is the test the source makes of an identifier
  (\<^verbatim>\<open>vf_find_id_buff_adv_hist3(id) != 0xFFFF\<close>), and \<open>scan_idx\<close> lists the indices that
  search visits.
\<close>

definition hist_wf :: "node_state \<Rightarrow> bool" where
  "hist_wf s \<longleftrightarrow>
     length (g_buff_adv_hist s) = 128 \<and> g_buff_adv_hist_firstpos s < 128 \<and>
     g_buff_adv_hist_lastpos s < 128 \<and> g_buff_adv_hist_size s \<le> 128 \<and>
     g_buff_adv_hist_lastpos s =
       (g_buff_adv_hist_firstpos s + g_buff_adv_hist_size s) mod 128"

definition hist_idx :: "node_state \<Rightarrow> nat list" where
  "hist_idx s =
     map (\<lambda>k. (g_buff_adv_hist_firstpos s + k) mod 128) [0..<g_buff_adv_hist_size s]"

definition hist_live :: "node_state \<Rightarrow> adv_history_buff_t list" where
  "hist_live s = map (\<lambda>i. g_buff_adv_hist s ! i) (hist_idx s)"

definition in_hist :: "node_state \<Rightarrow> nat \<Rightarrow> bool" where
  "in_hist s idv \<longleftrightarrow> vf_find_id_buff_adv_hist3 idv s \<noteq> 0xFFFF"

definition scan_idx :: "node_state \<Rightarrow> nat list" where
  "scan_idx s =
     (if g_buff_adv_hist_size s = 0 then []
      else if g_buff_adv_hist_firstpos s < g_buff_adv_hist_lastpos s
      then [g_buff_adv_hist_firstpos s..<g_buff_adv_hist_lastpos s]
      else [g_buff_adv_hist_firstpos s..<128] @ [0..<g_buff_adv_hist_lastpos s])"

text \<open>
  \<open>relay_n n\<close> is \<open>n\<close> runs of the advertising timer, \<open>budget\<close> the advertisements
  the blocks of a list have left, and \<open>submits\<close> the number of local events in a sequence
  of events.
\<close>

definition relay_n :: "nat \<Rightarrow> node_state \<Rightarrow> node_state" where
  "relay_n n s = (vf_relay_adv_data3 ^^ n) s"

definition budget :: "node_state \<Rightarrow> nat list \<Rightarrow> nat" where
  "budget s c = sum_list (map (\<lambda>p. unat (blk s p 3)) c)"

definition is_Submit :: "event \<Rightarrow> bool" where
  "is_Submit e = (case e of Submit d \<Rightarrow> True | _ \<Rightarrow> False)"

definition submits :: "event list \<Rightarrow> nat" where
  "submits es = length (filter is_Submit es)"

section \<open>The request queue of the Thingy UI client (ble\_thingy\_uis\_c.c)\<close>

text \<open>
  The client keeps the write requests it has not yet passed to the SoftDevice in a ring of
  \<^verbatim>\<open>TX_BUFFER_SIZE\<close> = 8 messages with two indices. A message is the \<^verbatim>\<open>tx_message_t\<close>
  of the source with the fields of the write request (the pointer \<^verbatim>\<open>p_value\<close> always
  points at the message's own \<^verbatim>\<open>gattc_value\<close>). Whether the SoftDevice takes a request
  (\<^verbatim>\<open>sd_ble_gattc_write\<close> returns \<^verbatim>\<open>NRF_SUCCESS\<close>) is the argument \<open>ok\<close> of
  \<open>tx_buffer_process\<close>, and \<open>gattc_sent\<close> lists the requests it took.
  \<^verbatim>\<open>BLE_CONN_HANDLE_INVALID\<close> and \<^verbatim>\<open>BLE_GATT_HVX_NOTIFICATION\<close> have the values of the
  SoftDevice headers.
\<close>

definition TX_BUFFER_MASK :: "32 word" where
  "TX_BUFFER_MASK = 0x07"

definition TUIS_WRITE_MESSAGE_LENGTH :: nat where
  "TUIS_WRITE_MESSAGE_LENGTH = 8"

definition BLE_CONN_HANDLE_INVALID :: "16 word" where
  "BLE_CONN_HANDLE_INVALID = 0xFFFF"

definition BLE_GATT_HVX_NOTIFICATION :: "16 word" where
  "BLE_GATT_HVX_NOTIFICATION = 0x01"

datatype tx_request_t = READ_REQ | WRITE_REQ

datatype ble_gatt_write_op = BLE_GATT_OP_WRITE_REQ

datatype ret_code = NRF_SUCCESS | NRF_ERROR_INVALID_STATE

record tx_message_t =
  conn_handle :: "16 word"
  req_type :: tx_request_t
  gattc_handle :: "16 word"
  gattc_len :: "16 word"
  gattc_offset :: "16 word"
  gattc_write_op :: ble_gatt_write_op
  gattc_value :: "byte list"

record ble_thingy_uis_c_t =
  peer_conn_handle :: "16 word"
  led_handle :: "16 word"
  button_handle :: "16 word"
  button_cccd_handle :: "16 word"

record uis_state =
  m_tx_buffer :: "tx_message_t list"
  m_tx_insert_index :: "32 word"
  m_tx_index :: "32 word"
  gattc_sent :: "tx_message_t list"


definition tx_buffer_process :: "bool \<Rightarrow> uis_state \<Rightarrow> uis_state" where
  "tx_buffer_process ok s =
     (if m_tx_index s \<noteq> m_tx_insert_index s then
        (if ok
         then s\<lparr>gattc_sent := gattc_sent s @ [m_tx_buffer s ! unat (m_tx_index s)],
                m_tx_index := (m_tx_index s + 1) AND TX_BUFFER_MASK\<rparr>
         else s)
      else s)"

definition on_write_rsp :: "ble_thingy_uis_c_t \<Rightarrow> 16 word \<Rightarrow> bool \<Rightarrow> uis_state \<Rightarrow> uis_state" where
  "on_write_rsp p evt_conn_handle ok s =
     (if peer_conn_handle p \<noteq> evt_conn_handle then s else tx_buffer_process ok s)"

definition cccd_configure ::
    "16 word \<Rightarrow> 16 word \<Rightarrow> bool \<Rightarrow> bool \<Rightarrow> uis_state \<Rightarrow> ret_code \<times> uis_state" where
  "cccd_configure ch handle_cccd enable ok s =
     (let cccd_val = (if enable then BLE_GATT_HVX_NOTIFICATION else 0);
          i = unat (m_tx_insert_index s);
          p_msg = m_tx_buffer s ! i;
          msg = p_msg\<lparr>gattc_handle := handle_cccd, gattc_len := 2, gattc_offset := 0,
                  gattc_write_op := BLE_GATT_OP_WRITE_REQ,
                  gattc_value := (gattc_value p_msg)
                     [0 := ucast cccd_val, 1 := ucast (drop_bit 8 cccd_val)],
                  conn_handle := ch, req_type := WRITE_REQ\<rparr>
      in (NRF_SUCCESS,
          tx_buffer_process ok
            (s\<lparr>m_tx_buffer := (m_tx_buffer s)[i := msg],
               m_tx_insert_index := (m_tx_insert_index s + 1) AND TX_BUFFER_MASK\<rparr>)))"

text \<open>
  \<^verbatim>\<open>ble_thingy_uis_led_status_send\<close> copies \<open>len\<close> bytes from \<open>led_state\<close> into the
  8 bytes of \<^verbatim>\<open>gattc_value\<close> with \<^verbatim>\<open>memcpy\<close> and checks neither length. A copy of more
  than \<^verbatim>\<open>TUIS_WRITE_MESSAGE_LENGTH\<close> bytes writes beyond \<^verbatim>\<open>gattc_value\<close>, and a copy of
  more bytes than \<open>led_state\<close> holds reads beyond it; C gives neither a meaning, and the
  function then has no result (\<open>None\<close>). The callers in the file pass 1, 3, 4 or 5.
\<close>

definition ble_thingy_uis_led_status_send ::
    "ble_thingy_uis_c_t \<Rightarrow> byte list \<Rightarrow> 16 word \<Rightarrow> bool \<Rightarrow> uis_state \<Rightarrow>
     (ret_code \<times> uis_state) option" where
  "ble_thingy_uis_led_status_send p led_state len ok s =
     (if peer_conn_handle p = BLE_CONN_HANDLE_INVALID then Some (NRF_ERROR_INVALID_STATE, s)
      else if TUIS_WRITE_MESSAGE_LENGTH < unat len \<or> length led_state < unat len then None
      else
        let i = unat (m_tx_insert_index s);
            p_msg = m_tx_buffer s ! i;
            msg = p_msg\<lparr>gattc_handle := led_handle p, gattc_len := len, gattc_offset := 0,
                    gattc_write_op := BLE_GATT_OP_WRITE_REQ,
                    gattc_value := memcpy (gattc_value p_msg) 0 (take (unat len) led_state),
                    conn_handle := peer_conn_handle p, req_type := WRITE_REQ\<rparr>
        in Some (NRF_SUCCESS,
            tx_buffer_process ok
              (s\<lparr>m_tx_buffer := (m_tx_buffer s)[i := msg],
                 m_tx_insert_index := (m_tx_insert_index s + 1) AND TX_BUFFER_MASK\<rparr>)))"

text \<open>
  The requests waiting in the ring, oldest first: the slots from \<^verbatim>\<open>m_tx_index\<close> up to
  \<^verbatim>\<open>m_tx_insert_index\<close>. \<open>tx_ok\<close> says that the arrays have their declared lengths
  and both indices are inside the ring.
\<close>

definition tx_pending :: "uis_state \<Rightarrow> tx_message_t list" where
  "tx_pending s =
     map (\<lambda>k. m_tx_buffer s ! ((unat (m_tx_index s) + k) mod 8))
       [0..<(unat (m_tx_insert_index s) + 8 - unat (m_tx_index s)) mod 8]"

definition tx_ok :: "uis_state \<Rightarrow> bool" where
  "tx_ok s \<longleftrightarrow>
     length (m_tx_buffer s) = 8 \<and>
     list_all (\<lambda>m. length (gattc_value m) = TUIS_WRITE_MESSAGE_LENGTH) (m_tx_buffer s) \<and>
     unat (m_tx_insert_index s) < 8 \<and> unat (m_tx_index s) < 8"

text \<open>
  The calls that reach the queue: the two functions that add a request, and the write
  response of the SoftDevice. A step has no result where the call has none.
\<close>

datatype uis_event =
  Cccd_configure "16 word" "16 word" bool bool
| Led_status_send ble_thingy_uis_c_t "byte list" "16 word" bool
| Write_rsp ble_thingy_uis_c_t "16 word" bool

definition uis_step :: "uis_event \<Rightarrow> uis_state \<Rightarrow> uis_state option" where
  "uis_step e s =
     (case e of
        Cccd_configure ch h en ok \<Rightarrow> Some (snd (cccd_configure ch h en ok s))
      | Led_status_send p st len ok \<Rightarrow>
          map_option snd (ble_thingy_uis_led_status_send p st len ok s)
      | Write_rsp p ch ok \<Rightarrow> Some (on_write_rsp p ch ok s))"

primrec uis_run :: "uis_event list \<Rightarrow> uis_state \<Rightarrow> uis_state option" where
  "uis_run [] s = Some s"
| "uis_run (e # es) s =
     (case uis_step e s of None \<Rightarrow> None | Some s1 \<Rightarrow> uis_run es s1)"

text \<open>
  What a call asks to be written: the connection, the handle, the length and that many
  bytes. \<open>request_of\<close> is \<open>None\<close> for a call that adds nothing (a write response, and
  \<^verbatim>\<open>ble_thingy_uis_led_status_send\<close> without a connection). \<open>tx_request\<close> is what the
  SoftDevice reads of a message in the ring: its fields and the first \<^verbatim>\<open>len\<close> bytes of
  \<^verbatim>\<open>gattc_value\<close>. \<open>overrun\<close> marks the calls whose copy leaves one of the two arrays.
\<close>

definition request_of :: "uis_event \<Rightarrow> tx_message_t option" where
  "request_of e =
     (case e of
        Cccd_configure ch h en ok \<Rightarrow>
          Some \<lparr>conn_handle = ch, req_type = WRITE_REQ, gattc_handle = h, gattc_len = 2,
                gattc_offset = 0, gattc_write_op = BLE_GATT_OP_WRITE_REQ,
                gattc_value = [if en then 1 else 0, 0]\<rparr>
      | Led_status_send p st len ok \<Rightarrow>
          if peer_conn_handle p = BLE_CONN_HANDLE_INVALID then None
          else Some \<lparr>conn_handle = peer_conn_handle p, req_type = WRITE_REQ,
                gattc_handle = led_handle p, gattc_len = len, gattc_offset = 0,
                gattc_write_op = BLE_GATT_OP_WRITE_REQ, gattc_value = take (unat len) st\<rparr>
      | Write_rsp p ch ok \<Rightarrow> None)"

definition tx_request :: "tx_message_t \<Rightarrow> tx_message_t" where
  "tx_request m = m\<lparr>gattc_value := take (unat (gattc_len m)) (gattc_value m)\<rparr>"

definition overrun :: "uis_event \<Rightarrow> bool" where
  "overrun e =
     (case e of
        Led_status_send p st len ok \<Rightarrow>
          peer_conn_handle p \<noteq> BLE_CONN_HANDLE_INVALID \<and>
          (TUIS_WRITE_MESSAGE_LENGTH < unat len \<or> length st < unat len)
      | _ \<Rightarrow> False)"

text \<open>
  \<open>tx_room\<close> says of a sequence of calls that each one has a result and each request is
  added while fewer than 7 are waiting.
\<close>

primrec tx_room :: "uis_event list \<Rightarrow> uis_state \<Rightarrow> bool" where
  "tx_room [] s = True"
| "tx_room (e # es) s =
     ((request_of e = None \<or> length (tx_pending s) < 7) \<and>
      (case uis_step e s of None \<Rightarrow> False | Some s1 \<Rightarrow> tx_room es s1))"

definition uis_boot :: uis_state where
  "uis_boot =
     \<lparr>m_tx_buffer = replicate 8
        \<lparr>conn_handle = 0, req_type = READ_REQ, gattc_handle = 0, gattc_len = 0,
         gattc_offset = 0, gattc_write_op = BLE_GATT_OP_WRITE_REQ, gattc_value = replicate 8 0\<rparr>,
      m_tx_insert_index = 0, m_tx_index = 0, gattc_sent = []\<rparr>"

text \<open>The two lines shared by both functions that add a request.\<close>

definition tx_store :: "tx_message_t \<Rightarrow> uis_state \<Rightarrow> uis_state" where
  "tx_store msg s =
     s\<lparr>m_tx_buffer := (m_tx_buffer s)[unat (m_tx_insert_index s) := msg],
       m_tx_insert_index := (m_tx_insert_index s + 1) AND TX_BUFFER_MASK\<rparr>"

definition uis_client0 :: ble_thingy_uis_c_t where
  "uis_client0 =
     \<lparr>peer_conn_handle = 1, led_handle = 7, button_handle = 8, button_cccd_handle = 9\<rparr>"



section \<open>Properties\<close>

subsection \<open>Basic facts\<close>

lemma run_append: "run code (es @ fs) s = run code fs (run code es s)"
  by (induction es arbitrary: s) simp_all

lemma byte_of_nat_neq_0: "0 < n \<Longrightarrow> n < 256 \<Longrightarrow> (of_nat n :: byte) \<noteq> 0"
  using of_nat_neq_0 [where 'a = 8, of n] by simp

lemma memcpy_length [simp]: "length (memcpy dst at xs) = length dst"
  by (induction xs arbitrary: dst at) simp_all

lemma memcpy_nth:
  "(memcpy dst at xs) ! i =
     (if at \<le> i \<and> i < at + length xs \<and> i < length dst then xs ! (i - at) else dst ! i)"
proof (induction xs arbitrary: dst at)
  case Nil
  show ?case by auto
next
  case (Cons x xs)
  show ?case
    using Cons.IH [of "dst[at := x]" "Suc at"]
    by (auto simp add: nth_Cons' nth_list_update list_update_beyond)
qed

lemma adr_eq [simp]:
  "k < 32 \<Longrightarrow> k' < 32 \<Longrightarrow> adr p k = adr q k' \<longleftrightarrow> p = q \<and> k = k'"
proof -
  assume k: "k < 32" "k' < 32"
  have "(p * 32 + k) div 32 = p" "(q * 32 + k') div 32 = q"
       "(p * 32 + k) mod 32 = k" "(q * 32 + k') mod 32 = k'"
    using k by simp_all
  then show ?thesis
    unfolding adr_def by metis
qed

lemma adr_lt [simp]: "p < 16 \<Longrightarrow> k < 32 \<Longrightarrow> adr p k < 512"
  by (simp add: adr_def)

lemma blk_adr: "blk s p k = garr_userdata s ! adr p k"
  by (simp add: blk_def adr_def MAX_USERDATA_BUFFER_BLOCKSIZE_def)

lemma memcpy_adr:
  assumes "length g = 512" "p < 16" "q < 16" "k < 32" "5 + length xs \<le> 32"
  shows "memcpy g (adr p 5) xs ! adr q k =
           (if q = p \<and> 5 \<le> k \<and> k < 5 + length xs then xs ! (k - 5) else g ! adr q k)"
proof -
  have in_g: "q * 32 + k < length g"
    using assms by simp
  consider "q = p" | "q < p" | "p < q"
    by arith
  then show ?thesis
  proof cases
    case 1
    then show ?thesis
      using in_g by (auto simp add: memcpy_nth adr_def)
  next
    case 2
    then have "\<not> p * 32 + 5 \<le> q * 32 + k"
      using assms by simp
    with 2 show ?thesis
      by (simp add: memcpy_nth adr_def)
  next
    case 3
    then have "\<not> q * 32 + k < p * 32 + 5 + length xs"
      using assms by simp
    with 3 show ?thesis
      by (simp add: memcpy_nth adr_def)
  qed
qed

lemma find_free_Some:
  "List.find P [0..<n] = Some i \<Longrightarrow> i < n \<and> P i \<and> (\<forall>j<i. \<not> P j)"
  by (auto simp add: find_Some_iff)

lemma find_free_None:
  "List.find P [0..<n] = None \<longleftrightarrow> (\<forall>i<n. \<not> P i)"
  by (auto simp add: find_None_iff)

lemma vf_add_packet_to_buffer3_full:
  "fst (vf_add_packet_to_buffer3 d s) \<noteq> 0 \<Longrightarrow> vf_add_packet_to_buffer3 d s = (1, s)"
  by (simp add: vf_add_packet_to_buffer3_def Let_def split: if_splits option.splits)

lemma vf_add_packet_to_buffer3_fails:
  "fst (vf_add_packet_to_buffer3 d s) \<noteq> 0 \<longleftrightarrow>
     (16 \<le> g_userdata_size s \<or> (\<forall>p<16. used s p))"
  by (auto simp add: vf_add_packet_to_buffer3_def Let_def used_def blk_def
      MAX_USERDATA_BUFFER_BLOCK_def find_free_None
      split: option.splits dest: find_free_Some)

lemma free_slot_Some:
  "free_slot s = Some pos \<Longrightarrow> pos < 16 \<and> \<not> used s pos \<and> (\<forall>j<pos. used s j)"
  unfolding free_slot_def
  by (drule find_free_Some) (simp add: used_def blk_def MAX_USERDATA_BUFFER_BLOCK_def)

lemma vf_add_packet_to_buffer3_slot:
  "fst (vf_add_packet_to_buffer3 d s) = 0 \<Longrightarrow>
   g_userdata_size s < 16 \<and> (\<exists>pos. free_slot s = Some pos)"
  by (auto simp add: vf_add_packet_to_buffer3_def free_slot_def MAX_USERDATA_BUFFER_BLOCK_def
      split: if_splits option.splits)

lemma vf_add_packet_to_buffer3_adr:
  assumes "g_userdata_size s < 16" "free_slot s = Some pos"
  shows "vf_add_packet_to_buffer3 d s =
     (0, s\<lparr>garr_userdata :=
            memcpy
              ((if g_userdata_size s = 0
                then (garr_userdata s)[adr pos 2 := 0xFF, adr pos 1 := 0xFF]
                else (garr_userdata s)[adr (g_userdata_lastpos s) 1 := of_nat pos,
                       adr pos 2 := of_nat (g_userdata_lastpos s), adr pos 1 := 0xFF])
               [adr pos 0 := 0xFF, adr pos 3 := 2, adr pos 4 := of_nat (length d + 1)])
              (adr pos 5) d,
          g_userdata_size := g_userdata_size s + 1,
          g_userdata_lastpos := pos,
          g_userdata_firstpos := (if g_userdata_size s = 0 then pos else g_userdata_firstpos s),
          g_userdata_currpos := (if g_userdata_size s = 0 then pos else g_userdata_currpos s)\<rparr>)"
  using assms
  by (simp add: vf_add_packet_to_buffer3_def free_slot_def MAX_USERDATA_BUFFER_BLOCK_def
      MAX_USERDATA_BUFFER_BLOCKSIZE_def Let_def adr_def)

lemma vf_add_packet_to_buffer3_blk:
  assumes sz: "g_userdata_size s < 16" and f: "free_slot s = Some pos"
    and len: "length (garr_userdata s) = 512" and dl: "length d \<le> 27"
    and lp: "g_userdata_size s \<noteq> 0 \<Longrightarrow> g_userdata_lastpos s < 16"
    and q: "q < 16" and k: "k < 32"
  shows "blk (snd (vf_add_packet_to_buffer3 d s)) q k =
            (if q = pos then
               (if k = 0 then 0xFF else if k = 1 then 0xFF
                else if k = 2 then (if g_userdata_size s = 0 then 0xFF
                                    else of_nat (g_userdata_lastpos s))
                else if k = 3 then 2
                else if k = 4 then of_nat (length d + 1)
                else if k < 5 + length d then d ! (k - 5)
                else blk s q k)
             else if g_userdata_size s \<noteq> 0 \<and> q = g_userdata_lastpos s \<and> k = 1
             then of_nat pos
             else blk s q k)"
proof -
  from free_slot_Some [OF f] have p: "pos < 16" by simp
  show ?thesis
  proof (cases "g_userdata_size s = 0")
    case True
    then show ?thesis
      using len dl p q k
      by (simp add: vf_add_packet_to_buffer3_adr [OF sz f] blk_adr memcpy_adr adr_eq adr_lt)
  next
    case False
    with lp have "g_userdata_lastpos s < 16" by simp
    then show ?thesis
      using False len dl p q k
      by (simp add: vf_add_packet_to_buffer3_adr [OF sz f] blk_adr memcpy_adr adr_eq adr_lt)
  qed
qed

lemma linked_follow: "linked f c \<Longrightarrow> c \<noteq> [] \<Longrightarrow> follow f (hd c) (length c) = c"
  by (induction f c rule: linked.induct) simp_all

lemma pool_chain_chain: "pool_chain s c \<Longrightarrow> chain s = c"
proof (cases "c = []")
  case True
  assume "pool_chain s c"
  with True show ?thesis
    by (simp add: pool_chain_def chain_def)
next
  case False
  assume pc: "pool_chain s c"
  then have "linked (blk s) c"
    by (simp add: pool_chain_def)
  then have "follow (blk s) (hd c) (length c) = c"
    using False by (rule linked_follow)
  moreover from pc False have "hd c = g_userdata_firstpos s" "length c = g_userdata_size s"
    by (simp_all add: pool_chain_def)
  ultimately show ?thesis
    by (simp add: chain_def)
qed

lemma pool_wfI: "pool_chain s c \<Longrightarrow> pool_wf s"
  using pool_chain_chain [of s c] by (simp add: pool_wf_def)

lemma linked_cong:
  "(\<And>p. p \<in> set (butlast c) \<Longrightarrow> f' p 1 = f p 1) \<Longrightarrow>
   (\<And>p. p \<in> set (tl c) \<Longrightarrow> f' p 2 = f p 2) \<Longrightarrow> linked f' c = linked f c"
proof (induction f c rule: linked.induct)
  case (3 f p q c)
  have "linked f' (q # c) = linked f (q # c)"
    by (rule "3.IH") (use "3.prems" in auto)
  moreover have "f' p 1 = f p 1" "f' q 2 = f q 2"
    using "3.prems" by simp_all
  ultimately show ?case
    by simp
qed simp_all

lemma linked_append:
  "linked f (xs @ ys) \<longleftrightarrow>
     linked f xs \<and> linked f ys \<and>
     (xs \<noteq> [] \<and> ys \<noteq> [] \<longrightarrow>
        unat (f (last xs) 1) = hd ys \<and> unat (f (hd ys) 2) = last xs)"
proof (induction f xs rule: linked.induct)
  case (1 f)
  show ?case by simp
next
  case (2 f p)
  show ?case by (cases ys) auto
next
  case (3 f p q c)
  then show ?case by auto
qed

lemma unat_byte_of_nat: "n < 256 \<Longrightarrow> unat (of_nat n :: byte) = n"
  by (simp add: unat_of_nat)

lemma pool_chain_used: "pool_chain s c \<Longrightarrow> p < 16 \<Longrightarrow> used s p \<longleftrightarrow> p \<in> set c"
  by (simp add: pool_chain_def list_all_iff)

lemma pool_chain_lt: "pool_chain s c \<Longrightarrow> p \<in> set c \<Longrightarrow> p < 16"
  by (simp add: pool_chain_def list_all_iff)

lemma pool_chainI:
  assumes "length (garr_userdata s) = 512" "linked (blk s) c" "distinct c"
    "\<And>p. p \<in> set c \<Longrightarrow> p < 16" "length c = g_userdata_size s"
    "\<And>p. p < 16 \<Longrightarrow> used s p \<longleftrightarrow> p \<in> set c"
    "c \<noteq> [] \<Longrightarrow> hd c = g_userdata_firstpos s"
    "c \<noteq> [] \<Longrightarrow> last c = g_userdata_lastpos s"
    "c \<noteq> [] \<Longrightarrow> g_userdata_currpos s \<in> set c"
  shows "pool_chain s c"
  using assms by (simp add: pool_chain_def list_all_iff)

lemma vf_add_packet_to_buffer3_chain:
  assumes pc: "pool_chain s c" and ok: "fst (vf_add_packet_to_buffer3 d s) = 0"
    and dl: "length d \<le> 27"
  shows "\<exists>pos. free_slot s = Some pos \<and>
           pool_chain (snd (vf_add_packet_to_buffer3 d s)) (c @ [pos])"
proof -
  let ?s' = "snd (vf_add_packet_to_buffer3 d s)"
  from vf_add_packet_to_buffer3_slot [OF ok] obtain pos
    where sz: "g_userdata_size s < 16" and f: "free_slot s = Some pos"
    by blast
  from free_slot_Some [OF f] have p: "pos < 16" "\<not> used s pos"
    by simp_all
  from pc have len: "length (garr_userdata s) = 512" and lc: "length c = g_userdata_size s"
    and dc: "distinct c" and lk: "linked (blk s) c"
    by (simp_all add: pool_chain_def)
  have notin: "pos \<notin> set c"
    using pool_chain_used [OF pc p(1)] p(2) by simp
  have last: "last c = g_userdata_lastpos s" "hd c = g_userdata_firstpos s"
    "g_userdata_currpos s \<in> set c" if "c \<noteq> []"
    using pc that by (simp_all add: pool_chain_def)
  have lp: "g_userdata_lastpos s < 16" if "g_userdata_size s \<noteq> 0"
  proof -
    from that lc have ne: "c \<noteq> []" by auto
    then have "last c \<in> set c" by simp
    with last(1) [OF ne] pool_chain_lt [OF pc] show ?thesis by simp
  qed
  note b = vf_add_packet_to_buffer3_blk [OF sz f len dl lp]
  note e = vf_add_packet_to_buffer3_adr [OF sz f, of d]
  have "pool_chain ?s' (c @ [pos])"
  proof (rule pool_chainI)
    show "length (garr_userdata ?s') = 512"
      using len by (simp add: e)
    show "length (c @ [pos]) = g_userdata_size ?s'"
      using lc by (simp add: e)
    show "distinct (c @ [pos])"
      using dc notin by simp
    show "p < 16" if "p \<in> set (c @ [pos])" for p
      using that p(1) pool_chain_lt [OF pc] by auto
    show "used ?s' p \<longleftrightarrow> p \<in> set (c @ [pos])" if "p < 16" for p
      using pool_chain_used [OF pc that] by (simp add: used_def b that)
    have sz0: "g_userdata_size s = 0 \<longleftrightarrow> c = []"
      using lc by auto
    show "hd (c @ [pos]) = g_userdata_firstpos ?s'" if "c @ [pos] \<noteq> []"
      using last(2) by (cases "c = []") (simp_all add: e sz0)
    show "last (c @ [pos]) = g_userdata_lastpos ?s'" if "c @ [pos] \<noteq> []"
      by (simp add: e)
    show "g_userdata_currpos ?s' \<in> set (c @ [pos])" if "c @ [pos] \<noteq> []"
      using last(3) by (cases "c = []") (simp_all add: e sz0)
    have old: "linked (blk ?s') c = linked (blk s) c"
    proof (rule linked_cong)
      fix q assume q: "q \<in> set (butlast c)"
      then have qc: "q \<in> set c" by (rule in_set_butlastD)
      then have ne: "c \<noteq> []" by auto
      from q dc have "q \<noteq> last c"
        by (metis append_butlast_last_id distinct_append disjoint_iff list.set_intros(1) ne)
      with last(1) [OF ne] have "q \<noteq> g_userdata_lastpos s" by simp
      moreover from qc notin have "q \<noteq> pos" by auto
      ultimately show "blk ?s' q 1 = blk s q 1"
        using pool_chain_lt [OF pc qc] by (simp add: b)
    next
      fix q assume "q \<in> set (tl c)"
      then have qc: "q \<in> set c" by (cases c) simp_all
      with notin have "q \<noteq> pos" by auto
      then show "blk ?s' q 2 = blk s q 2"
        using pool_chain_lt [OF pc qc] by (simp add: b)
    qed
    have link: "unat (blk ?s' (last c) 1) = pos \<and> unat (blk ?s' pos 2) = last c" if ne: "c \<noteq> []"
    proof -
      from ne have nz: "g_userdata_size s \<noteq> 0" by (simp add: sz0)
      have "last c \<in> set c" using ne by simp
      then have l16: "last c < 16" "last c \<noteq> pos"
        using pool_chain_lt [OF pc] notin by auto
      show ?thesis
        using nz l16 p(1) last(1) [OF ne] by (simp add: b unat_byte_of_nat)
    qed
    show "linked (blk ?s') (c @ [pos])"
      using lk link by (simp add: linked_append old)
  qed
  with f show ?thesis
    by blast
qed

text \<open>Unlinking the current block, without the history buffer.\<close>

lemma vf_delete_block_buffer3_adr:
  "vf_delete_block_buffer3 False s =
     (let cur = g_userdata_currpos s; g = garr_userdata s
      in if g_userdata_size s = 0 then s
         else if g_userdata_size s = 1 then
           s\<lparr>garr_userdata := g[adr cur 0 := 0, adr cur 2 := 0xFF, adr cur 1 := 0xFF],
             g_userdata_firstpos := 0, g_userdata_currpos := 0,
             g_userdata_lastpos := 0, g_userdata_size := 0\<rparr>
         else if cur = g_userdata_firstpos s then
           s\<lparr>garr_userdata := g[adr cur 0 := 0, adr cur 2 := 0xFF, adr cur 1 := 0xFF,
                                 adr (unat (blk s cur 1)) 2 := 0xFF],
             g_userdata_firstpos := unat (blk s cur 1),
             g_userdata_currpos := unat (blk s cur 1),
             g_userdata_size := g_userdata_size s - 1\<rparr>
         else if cur = g_userdata_lastpos s then
           s\<lparr>garr_userdata := g[adr cur 0 := 0, adr cur 2 := 0xFF, adr cur 1 := 0xFF,
                                 adr (unat (blk s cur 2)) 1 := 0xFF],
             g_userdata_lastpos := unat (blk s cur 2),
             g_userdata_currpos := g_userdata_firstpos s,
             g_userdata_size := g_userdata_size s - 1\<rparr>
         else
           s\<lparr>garr_userdata := g[adr cur 0 := 0, adr cur 2 := 0xFF, adr cur 1 := 0xFF,
                                 adr (unat (blk s cur 1)) 2 := of_nat (unat (blk s cur 2)),
                                 adr (unat (blk s cur 2)) 1 := of_nat (unat (blk s cur 1))],
             g_userdata_currpos := unat (blk s cur 1),
             g_userdata_size := g_userdata_size s - 1\<rparr>)"
  by (simp add: vf_delete_block_buffer3_def Let_def blk_def adr_def
      MAX_USERDATA_BUFFER_BLOCKSIZE_def)

lemma vf_delete_block_buffer3_True:
  "vf_delete_block_buffer3 True s =
     (if g_userdata_size s = 0 then s
      else snd (vf_add_buff_adv_hist3
                  (ids_of (blk s (g_userdata_currpos s) 5) (blk s (g_userdata_currpos s) 6)
                     (blk s (g_userdata_currpos s) 7))
                  (vf_delete_block_buffer3 False s)))"
  by (simp add: vf_delete_block_buffer3_def Let_def blk_def add.assoc)

lemma linked_Cons:
  "linked f (p # c) \<longleftrightarrow>
     linked f c \<and> (c \<noteq> [] \<longrightarrow> unat (f p 1) = hd c \<and> unat (f (hd c) 2) = p)"
  by (cases c) auto

lemma split_at_cur:
  "cur \<in> set c \<Longrightarrow> \<exists>xs ys. c = xs @ cur # ys"
  by (simp add: split_list)

text \<open>
  The chain after the unlinking: the current block is gone, and the cursor stands on its
  successor, or on the first block when it was the last one.
\<close>

lemma vf_delete_block_buffer3_chain:
  assumes pc: "pool_chain s (xs @ cur # ys)" and cur: "g_userdata_currpos s = cur"
  shows "pool_chain (vf_delete_block_buffer3 False s) (xs @ ys)"
    and "xs @ ys \<noteq> [] \<Longrightarrow>
         g_userdata_currpos (vf_delete_block_buffer3 False s) = hd (ys @ xs)"
    and "\<And>q k. q < 16 \<Longrightarrow> k < 32 \<Longrightarrow> 3 \<le> k \<Longrightarrow>
           blk (vf_delete_block_buffer3 False s) q k = blk s q k"
    and "\<And>q. q < 16 \<Longrightarrow> q \<noteq> cur \<Longrightarrow>
           blk (vf_delete_block_buffer3 False s) q 0 = blk s q 0"
proof -
  let ?c = "xs @ cur # ys"
  let ?s' = "vf_delete_block_buffer3 False s"
  from pc have len: "length (garr_userdata s) = 512" and lc: "length ?c = g_userdata_size s"
    and dc: "distinct ?c" and lk: "linked (blk s) ?c"
    and hd: "hd ?c = g_userdata_firstpos s" and la: "last ?c = g_userdata_lastpos s"
    by (simp_all add: pool_chain_def)
  have lt: "q < 16" if "q \<in> set ?c" for q
    using pool_chain_lt [OF pc that] .
  have c16: "cur < 16" by (rule lt) simp
  have us: "used s q \<longleftrightarrow> q \<in> set ?c" if "q < 16" for q
    using pool_chain_used [OF pc that] .
  from lk have lxs: "linked (blk s) xs" and lys: "linked (blk s) ys"
    and nx: "ys \<noteq> [] \<Longrightarrow> unat (blk s cur 1) = hd ys \<and> unat (blk s (hd ys) 2) = cur"
    and pv: "xs \<noteq> [] \<Longrightarrow> unat (blk s (last xs) 1) = cur \<and> unat (blk s cur 2) = last xs"
    by (simp_all add: linked_append linked_Cons)
  have first_iff: "cur = g_userdata_firstpos s \<longleftrightarrow> xs = []"
    using hd dc by (cases xs) auto
  have last_iff: "cur = g_userdata_lastpos s \<longleftrightarrow> ys = []"
    using la dc by (cases ys rule: rev_cases) auto
  have size1: "g_userdata_size s = 1 \<longleftrightarrow> xs = [] \<and> ys = []"
    using lc by auto
  have size0: "g_userdata_size s \<noteq> 0"
    using lc by auto
  consider (one) "xs = []" "ys = []" | (first) "xs = []" "ys \<noteq> []"
    | (last) "xs \<noteq> []" "ys = []" | (mid) "xs \<noteq> []" "ys \<noteq> []"
    by blast
  then have all: "pool_chain ?s' (xs @ ys) \<and>
      (xs @ ys \<noteq> [] \<longrightarrow> g_userdata_currpos ?s' = hd (ys @ xs)) \<and>
      (\<forall>q k. q < 16 \<longrightarrow> k < 32 \<longrightarrow> 3 \<le> k \<longrightarrow> blk ?s' q k = blk s q k) \<and>
      (\<forall>q. q < 16 \<longrightarrow> q \<noteq> cur \<longrightarrow> blk ?s' q 0 = blk s q 0)"
  proof cases
    case one
    have e: "?s' = s\<lparr>garr_userdata := (garr_userdata s)
                        [adr cur 0 := 0, adr cur 2 := 0xFF, adr cur 1 := 0xFF],
             g_userdata_firstpos := 0, g_userdata_currpos := 0,
             g_userdata_lastpos := 0, g_userdata_size := 0\<rparr>"
      using size0 size1 one cur by (simp add: vf_delete_block_buffer3_adr Let_def)
    have b: "blk ?s' q k = (if q = cur \<and> k = 0 then 0 else if q = cur \<and> (k = 1 \<or> k = 2) then 0xFF else blk s q k)"
      if "q < 16" "k < 32" for q k
      using that len c16 by (auto simp add: e blk_adr adr_eq adr_lt)
    have "pool_chain ?s' []"
    proof (rule pool_chainI)
      show "used ?s' p \<longleftrightarrow> p \<in> set []" if "p < 16" for p
        using us [OF that] one by (auto simp add: used_def b that)
    qed (simp_all add: e len)
    then show ?thesis
      using one b by simp
  next
    case first
    let ?n = "hd ys"
    from first nx have n: "unat (blk s cur 1) = ?n" by simp
    have n16: "?n < 16" using first by (intro lt) simp
    have ncur: "?n \<noteq> cur" using dc first by (cases ys) auto
    have e: "?s' = s\<lparr>garr_userdata := (garr_userdata s)
                        [adr cur 0 := 0, adr cur 2 := 0xFF, adr cur 1 := 0xFF,
                         adr ?n 2 := 0xFF],
             g_userdata_firstpos := ?n, g_userdata_currpos := ?n,
             g_userdata_size := g_userdata_size s - 1\<rparr>"
      using size0 size1 first first_iff cur n
      by (simp add: vf_delete_block_buffer3_adr Let_def)
    have b: "blk ?s' q k =
        (if q = cur \<and> k = 0 then 0 else if q = cur \<and> (k = 1 \<or> k = 2) then 0xFF
         else if q = ?n \<and> k = 2 then 0xFF else blk s q k)"
      if "q < 16" "k < 32" for q k
      using that len c16 n16 ncur by (auto simp add: e blk_adr adr_eq adr_lt)
    have "pool_chain ?s' ys"
    proof (rule pool_chainI)
      show "length (garr_userdata ?s') = 512" by (simp add: e len)
      show "distinct ys" using dc by simp
      show "p < 16" if "p \<in> set ys" for p using that by (intro lt) simp
      show "length ys = g_userdata_size ?s'" using lc first by (simp add: e)
      show "used ?s' p \<longleftrightarrow> p \<in> set ys" if "p < 16" for p
        using us [OF that] first dc by (auto simp add: used_def b that)
      show "hd ys = g_userdata_firstpos ?s'" by (simp add: e)
      show "last ys = g_userdata_lastpos ?s'" using la first by (simp add: e)
      show "g_userdata_currpos ?s' \<in> set ys" using first by (simp add: e)
      have "linked (blk ?s') ys = linked (blk s) ys"
      proof (rule linked_cong)
        fix q assume "q \<in> set (butlast ys)"
        then have q: "q \<in> set ys" by (rule in_set_butlastD)
        with dc have "q \<noteq> cur" by auto
        then show "blk ?s' q 1 = blk s q 1"
          using lt [of q] q by (simp add: b)
      next
        fix q assume q': "q \<in> set (tl ys)"
        then have q: "q \<in> set ys" by (cases ys) simp_all
        from q' dc first have "q \<noteq> ?n" by (cases ys) auto
        moreover from q dc have "q \<noteq> cur" by auto
        ultimately show "blk ?s' q 2 = blk s q 2"
          using lt [of q] q by (simp add: b)
      qed
      with lys show "linked (blk ?s') ys" by simp
    qed
    then show ?thesis
      using first b by (simp add: e)
  next
    case last
    let ?p = "last xs"
    from last pv have p: "unat (blk s cur 2) = ?p" by simp
    have p16: "?p < 16" using last by (intro lt) simp
    have pcur: "?p \<noteq> cur" using dc last by (cases xs rule: rev_cases) auto
    have e: "?s' = s\<lparr>garr_userdata := (garr_userdata s)
                        [adr cur 0 := 0, adr cur 2 := 0xFF, adr cur 1 := 0xFF,
                         adr ?p 1 := 0xFF],
             g_userdata_lastpos := ?p, g_userdata_currpos := g_userdata_firstpos s,
             g_userdata_size := g_userdata_size s - 1\<rparr>"
      using size0 size1 last first_iff last_iff cur p
      by (simp add: vf_delete_block_buffer3_adr Let_def)
    have b: "blk ?s' q k =
        (if q = cur \<and> k = 0 then 0 else if q = cur \<and> (k = 1 \<or> k = 2) then 0xFF
         else if q = ?p \<and> k = 1 then 0xFF else blk s q k)"
      if "q < 16" "k < 32" for q k
      using that len c16 p16 pcur by (auto simp add: e blk_adr adr_eq adr_lt)
    have "pool_chain ?s' xs"
    proof (rule pool_chainI)
      show "length (garr_userdata ?s') = 512" by (simp add: e len)
      show "distinct xs" using dc by simp
      show "p < 16" if "p \<in> set xs" for p using that by (intro lt) simp
      show "length xs = g_userdata_size ?s'" using lc last by (simp add: e)
      show "used ?s' p \<longleftrightarrow> p \<in> set xs" if "p < 16" for p
        using us [OF that] last dc by (auto simp add: used_def b that)
      show "hd xs = g_userdata_firstpos ?s'" using hd last by (simp add: e)
      show "last xs = g_userdata_lastpos ?s'" by (simp add: e)
      show "g_userdata_currpos ?s' \<in> set xs"
        using hd last hd_in_set [of xs] by (simp add: e)
      have "linked (blk ?s') xs = linked (blk s) xs"
      proof (rule linked_cong)
        fix q assume q': "q \<in> set (butlast xs)"
        then have q: "q \<in> set xs" by (rule in_set_butlastD)
        from q' dc last have "q \<noteq> ?p" by (cases xs rule: rev_cases) auto
        moreover from q dc have "q \<noteq> cur" by auto
        ultimately show "blk ?s' q 1 = blk s q 1"
          using lt [of q] q by (simp add: b)
      next
        fix q assume "q \<in> set (tl xs)"
        then have q: "q \<in> set xs" by (cases xs) simp_all
        with dc have "q \<noteq> cur" by auto
        then show "blk ?s' q 2 = blk s q 2"
          using lt [of q] q by (simp add: b)
      qed
      with lxs show "linked (blk ?s') xs" by simp
    qed
    then show ?thesis
      using last b hd by (simp add: e)
  next
    case mid
    let ?n = "hd ys" and ?p = "last xs"
    from mid nx pv have n: "unat (blk s cur 1) = ?n" and p: "unat (blk s cur 2) = ?p"
      by simp_all
    have n16: "?n < 16" using mid by (intro lt) simp
    have p16: "?p < 16" using mid by (intro lt) simp
    have ncur: "?n \<noteq> cur" using dc mid by (cases ys) auto
    have pcur: "?p \<noteq> cur" using dc mid by (cases xs rule: rev_cases) auto
    have pin: "?p \<in> set xs" and nin: "?n \<in> set ys"
      using mid by simp_all
    have pn: "?p \<noteq> ?n"
      using pin nin dc by auto
    have e: "?s' = s\<lparr>garr_userdata := (garr_userdata s)
                        [adr cur 0 := 0, adr cur 2 := 0xFF, adr cur 1 := 0xFF,
                         adr ?n 2 := of_nat ?p, adr ?p 1 := of_nat ?n],
             g_userdata_currpos := ?n,
             g_userdata_size := g_userdata_size s - 1\<rparr>"
      using size0 size1 mid first_iff last_iff cur n p
      by (simp add: vf_delete_block_buffer3_adr Let_def)
    have b: "blk ?s' q k =
        (if q = cur \<and> k = 0 then 0 else if q = cur \<and> (k = 1 \<or> k = 2) then 0xFF
         else if q = ?n \<and> k = 2 then of_nat ?p
         else if q = ?p \<and> k = 1 then of_nat ?n else blk s q k)"
      if "q < 16" "k < 32" for q k
      using that len c16 p16 n16 pcur ncur pn by (auto simp add: e blk_adr adr_eq adr_lt)
    have "pool_chain ?s' (xs @ ys)"
    proof (rule pool_chainI)
      show "length (garr_userdata ?s') = 512" by (simp add: e len)
      show "distinct (xs @ ys)" using dc by auto
      show "q < 16" if "q \<in> set (xs @ ys)" for q using that by (intro lt) auto
      show "length (xs @ ys) = g_userdata_size ?s'" using lc by (simp add: e)
      show "used ?s' q \<longleftrightarrow> q \<in> set (xs @ ys)" if "q < 16" for q
        using us [OF that] dc by (auto simp add: used_def b that)
      show "hd (xs @ ys) = g_userdata_firstpos ?s'" using hd mid by (simp add: e)
      show "last (xs @ ys) = g_userdata_lastpos ?s'" using la mid by (simp add: e)
      show "g_userdata_currpos ?s' \<in> set (xs @ ys)" using mid by (simp add: e)
      have x: "linked (blk ?s') xs = linked (blk s) xs"
      proof (rule linked_cong)
        fix q assume q': "q \<in> set (butlast xs)"
        then have q: "q \<in> set xs" by (rule in_set_butlastD)
        from q' dc mid have "q \<noteq> ?p" by (cases xs rule: rev_cases) auto
        moreover from q dc have "q \<noteq> cur" by auto
        ultimately show "blk ?s' q 1 = blk s q 1"
          using lt [of q] q by (simp add: b)
      next
        fix q assume "q \<in> set (tl xs)"
        then have q: "q \<in> set xs" by (cases xs) simp_all
        with dc have "q \<noteq> cur" "q \<noteq> ?n" using nin by auto
        then show "blk ?s' q 2 = blk s q 2"
          using lt [of q] q by (simp add: b)
      qed
      have y: "linked (blk ?s') ys = linked (blk s) ys"
      proof (rule linked_cong)
        fix q assume "q \<in> set (butlast ys)"
        then have q: "q \<in> set ys" by (rule in_set_butlastD)
        with dc have "q \<noteq> cur" "q \<noteq> ?p" using pin by auto
        then show "blk ?s' q 1 = blk s q 1"
          using lt [of q] q by (simp add: b)
      next
        fix q assume q': "q \<in> set (tl ys)"
        then have q: "q \<in> set ys" by (cases ys) simp_all
        from q' dc mid have "q \<noteq> ?n" by (cases ys) auto
        moreover from q dc have "q \<noteq> cur" by auto
        ultimately show "blk ?s' q 2 = blk s q 2"
          using lt [of q] q by (simp add: b)
      qed
      have "unat (blk ?s' ?p 1) = ?n" "unat (blk ?s' ?n 2) = ?p"
        using p16 n16 pcur ncur pn by (simp_all add: b unat_byte_of_nat)
      with lxs lys show "linked (blk ?s') (xs @ ys)"
        by (simp add: linked_append x y)
    qed
    then show ?thesis
      using mid b by (simp add: e)
  qed
  from all show "pool_chain ?s' (xs @ ys)" by simp
  from all show "xs @ ys \<noteq> [] \<Longrightarrow> g_userdata_currpos ?s' = hd (ys @ xs)" by simp
  from all show "\<And>q k. q < 16 \<Longrightarrow> k < 32 \<Longrightarrow> 3 \<le> k \<Longrightarrow> blk ?s' q k = blk s q k" by simp
  from all show "\<And>q. q < 16 \<Longrightarrow> q \<noteq> cur \<Longrightarrow> blk ?s' q 0 = blk s q 0" by simp
qed

lemma ring_add:
  "f < N \<Longrightarrow> k \<le> N \<Longrightarrow> (f + k) mod N = (if f + k < N then f + k else f + k - N)" for f k N :: nat
  by (simp add: le_mod_geq)

lemma hist_idx_range:
  assumes wf: "hist_wf s"
  shows "hist_idx s =
     (if g_buff_adv_hist_size s = 0 then []
      else if g_buff_adv_hist_firstpos s < g_buff_adv_hist_lastpos s
      then [g_buff_adv_hist_firstpos s..<g_buff_adv_hist_lastpos s]
      else [g_buff_adv_hist_firstpos s..<128] @ [0..<g_buff_adv_hist_lastpos s])"
proof -
  let ?f = "g_buff_adv_hist_firstpos s" and ?l = "g_buff_adv_hist_lastpos s"
  let ?n = "g_buff_adv_hist_size s"
  from wf have f: "?f < 128" and n: "?n \<le> 128" and l: "?l = (?f + ?n) mod 128"
    by (simp_all add: hist_wf_def)
  from l have l': "?l = (if ?f + ?n < 128 then ?f + ?n else ?f + ?n - 128)"
    using ring_add [OF f n] by simp
  show ?thesis
  proof (rule nth_equalityI)
    show len: "length (hist_idx s) = length
     (if ?n = 0 then [] else if ?f < ?l then [?f..<?l] else [?f..<128] @ [0..<?l])"
      using f n l' by (auto simp add: hist_idx_def split: if_splits)
    fix i assume "i < length (hist_idx s)"
    then have i: "i < ?n" by (simp add: hist_idx_def)
    then have in': "i \<le> 128" using n by simp
    show "hist_idx s ! i =
       (if ?n = 0 then [] else if ?f < ?l then [?f..<?l] else [?f..<128] @ [0..<?l]) ! i"
      using i f n l' ring_add [OF f in']
      by (auto simp add: hist_idx_def nth_append split: if_splits)
  qed
qed

lemma hist_idx_lt: "hist_wf s \<Longrightarrow> i \<in> set (hist_idx s) \<Longrightarrow> i < 128"
  by (auto simp add: hist_idx_def)

lemma find_append:
  "List.find P (xs @ ys) = (case List.find P xs of None \<Rightarrow> List.find P ys | Some x \<Rightarrow> Some x)"
  by (induction xs) simp_all

lemma vf_find_id_buff_adv_hist3_scan:
  "vf_find_id_buff_adv_hist3 idv s =
     (case List.find (\<lambda>i. idv = ident (g_buff_adv_hist s ! i)) (scan_idx s) of
        None \<Rightarrow> 0xFFFF | Some i \<Rightarrow> i)"
  by (simp add: vf_find_id_buff_adv_hist3_def scan_idx_def hist_scan_def find_append
      MAX_HIST_ADV_BUFF_SIZE_def split: option.split)

lemma scan_idx_lt:
  "g_buff_adv_hist_lastpos s \<le> 128 \<Longrightarrow> i \<in> set (scan_idx s) \<Longrightarrow> i < 128"
  by (auto simp add: scan_idx_def split: if_splits)

lemma in_hist_scan:
  assumes "g_buff_adv_hist_lastpos s \<le> 128"
  shows "in_hist s idv \<longleftrightarrow> (\<exists>i\<in>set (scan_idx s). idv = ident (g_buff_adv_hist s ! i))"
proof (cases "List.find (\<lambda>i. idv = ident (g_buff_adv_hist s ! i)) (scan_idx s)")
  case None
  then have "\<not> (\<exists>i\<in>set (scan_idx s). idv = ident (g_buff_adv_hist s ! i))"
    by (auto simp add: find_None_iff)
  with None show ?thesis
    by (simp add: in_hist_def vf_find_id_buff_adv_hist3_scan)
next
  case (Some i)
  then have i: "i \<in> set (scan_idx s)" "idv = ident (g_buff_adv_hist s ! i)"
    by (auto simp add: find_Some_iff)
  with scan_idx_lt [OF assms] have "i \<noteq> 0xFFFF"
    by fastforce
  with i Some show ?thesis
    by (auto simp add: in_hist_def vf_find_id_buff_adv_hist3_scan)
qed

text \<open>The search finds exactly the identifiers of the entries in use.\<close>

lemma in_hist_iff:
  assumes wf: "hist_wf s"
  shows "in_hist s idv \<longleftrightarrow> idv \<in> ident ` set (hist_live s)"
proof -
  from wf have "g_buff_adv_hist_lastpos s \<le> 128"
    by (simp add: hist_wf_def)
  moreover have "hist_idx s = scan_idx s"
    by (simp add: hist_idx_range [OF wf] scan_idx_def)
  ultimately show ?thesis
    by (auto simp add: in_hist_scan hist_live_def)
qed

lemma vf_add_buff_adv_hist3_present:
  "in_hist s idv \<Longrightarrow> vf_add_buff_adv_hist3 idv s = (0xFFFF, s)"
  by (simp add: vf_add_buff_adv_hist3_def in_hist_def)

lemma vf_add_buff_adv_hist3_absent:
  assumes wf: "hist_wf s" and ab: "\<not> in_hist s idv"
  shows "snd (vf_add_buff_adv_hist3 idv s) =
     s\<lparr>g_buff_adv_hist := (g_buff_adv_hist s)
            [g_buff_adv_hist_lastpos s := \<lparr>ident = idv, TTL = 10\<rparr>],
       g_buff_adv_hist_lastpos := (g_buff_adv_hist_lastpos s + 1) mod 128,
       g_buff_adv_hist_firstpos :=
         (if g_buff_adv_hist_size s = 128 then (g_buff_adv_hist_lastpos s + 1) mod 128
          else g_buff_adv_hist_firstpos s),
       g_buff_adv_hist_size :=
         (if g_buff_adv_hist_size s = 128 then 128 else g_buff_adv_hist_size s + 1)\<rparr>"
proof -
  from wf have l: "g_buff_adv_hist_lastpos s < 128" and n: "g_buff_adv_hist_size s \<le> 128"
    by (simp_all add: hist_wf_def)
  have m: "(if (g_buff_adv_hist_lastpos s + 1) mod 256 = 128 then 0
            else (g_buff_adv_hist_lastpos s + 1) mod 256) = (g_buff_adv_hist_lastpos s + 1) mod 128"
    using l by (auto simp add: mod_Suc)
  show ?thesis
    using ab n m
    by (auto simp add: vf_add_buff_adv_hist3_def in_hist_def Let_def MAX_HIST_ADV_BUFF_SIZE_def)
qed

lemma vf_add_buff_adv_hist3_live:
  assumes wf: "hist_wf s" and ab: "\<not> in_hist s idv"
  shows "hist_wf (snd (vf_add_buff_adv_hist3 idv s))"
    and "hist_live (snd (vf_add_buff_adv_hist3 idv s)) =
           (if g_buff_adv_hist_size s = 128 then tl (hist_live s) else hist_live s) @
           [\<lparr>ident = idv, TTL = 10\<rparr>]"
proof -
  let ?f = "g_buff_adv_hist_firstpos s" and ?l = "g_buff_adv_hist_lastpos s"
  let ?n = "g_buff_adv_hist_size s" and ?h = "g_buff_adv_hist s"
  let ?e = "\<lparr>ident = idv, TTL = 10\<rparr>"
  let ?s' = "snd (vf_add_buff_adv_hist3 idv s)"
  note e = vf_add_buff_adv_hist3_absent [OF wf ab]
  from wf have f: "?f < 128" and l: "?l < 128" and n: "?n \<le> 128"
    and len: "length ?h = 128" and le: "?l = (?f + ?n) mod 128"
    by (simp_all add: hist_wf_def)
  show "hist_wf ?s'"
  proof (cases "?n = 128")
    case True
    then show ?thesis
      using f l len by (simp add: e hist_wf_def)
  next
    case False
    have "(?l + 1) mod 128 = (?f + (?n + 1)) mod 128"
      by (simp add: le mod_Suc_eq)
    then show ?thesis
      using False f n len by (simp add: e hist_wf_def)
  qed
  show "hist_live ?s' = (if ?n = 128 then tl (hist_live s) else hist_live s) @ [?e]"
  proof (cases "?n = 128")
    case False
    then have n': "?n < 128" using n by simp
    have notin: "(?f + k) mod 128 \<noteq> ?l" if "k < ?n" for k
    proof -
      from that n' have k: "k \<le> 128" by simp
      show ?thesis
        using that n' f ring_add [OF f k] ring_add [OF f n]
        by (auto simp add: le split: if_splits)
    qed
    have "map (\<lambda>k. ?h[?l := ?e] ! ((?f + k) mod 128)) [0..<?n] =
          map (\<lambda>k. ?h ! ((?f + k) mod 128)) [0..<?n]"
      by (rule map_cong) (simp_all add: notin [THEN not_sym])
    moreover have "?h[?l := ?e] ! ((?f + ?n) mod 128) = ?e"
      using l len by (simp add: le [symmetric])
    ultimately show ?thesis
      using False by (simp add: e hist_live_def hist_idx_def comp_def)
  next
    case True
    then have lf: "?l = ?f"
      using f by (simp add: le)
    define J where "J = map (\<lambda>k. (?f + Suc k) mod 128) [0..<127]"
    have sh: "(Suc ?f mod 128 + k) mod 128 = Suc (?f + k) mod 128" for k
      by (simp add: mod_add_left_eq)
    have notin: "?f \<notin> set J"
    proof
      assume "?f \<in> set J"
      then obtain k where k: "k < 127" "(?f + Suc k) mod 128 = ?f"
        by (auto simp add: J_def)
      from k(1) have "Suc k \<le> 128" by simp
      from ring_add [OF f this] k f show False
        by (auto split: if_splits)
    qed
    have up: "[0..<128] = [0..<127] @ [127]"
      using upt_Suc_append [of 0 127] by simp
    have up': "[0..<128] = 0 # map Suc [0..<127]"
      by (simp add: upt_conv_Cons map_Suc_upt del: upt_Suc)
    have "hist_idx ?s' = map (\<lambda>k. (?f + Suc k) mod 128) [0..<128]"
      using True by (simp add: e hist_idx_def lf sh)
    also have "\<dots> = J @ [(?f + Suc 127) mod 128]"
      by (simp only: up J_def map_append list.map)
    also have "(?f + Suc 127) mod 128 = ?f"
      using f by simp
    finally have idx': "hist_idx ?s' = J @ [?f]" .
    have "hist_idx s = map (\<lambda>k. (?f + k) mod 128) [0..<128]"
      using True by (simp add: hist_idx_def)
    also have "\<dots> = (?f + 0) mod 128 # map (\<lambda>k. (?f + k) mod 128) (map Suc [0..<127])"
      by (simp only: up' list.map)
    also have "\<dots> = ?f # J"
      using f by (simp add: J_def comp_def)
    finally have idx: "hist_idx s = ?f # J" .
    have h': "g_buff_adv_hist ?s' = ?h[?f := ?e]"
      by (simp add: e lf)
    have "map (\<lambda>i. ?h[?f := ?e] ! i) J = map (\<lambda>i. ?h ! i) J"
    proof (rule map_cong)
      fix x assume "x \<in> set J"
      with notin have "?f \<noteq> x" by auto
      then show "?h[?f := ?e] ! x = ?h ! x" by simp
    qed simp
    moreover have "?h[?f := ?e] ! ?f = ?e"
      using f len by simp
    ultimately show ?thesis
      using True by (simp add: hist_live_def idx idx' h')
  qed
qed

lemma in_set_tl: "x \<in> set (tl xs) \<Longrightarrow> x \<in> set xs"
  by (cases xs) simp_all

lemma linked_cong_all:
  assumes "\<And>p k. p \<in> set c \<Longrightarrow> k = 1 \<or> k = 2 \<Longrightarrow> f' p k = f p k"
  shows "linked f' c = linked f c"
proof (rule linked_cong)
  show "f' p 1 = f p 1" if "p \<in> set (butlast c)" for p
    using assms [of p 1] that by (simp add: in_set_butlastD)
  show "f' p 2 = f p 2" if "p \<in> set (tl c)" for p
    using assms [of p 2] that by (simp add: in_set_tl)
qed

lemma pool_chain_cong:
  assumes "length (garr_userdata t) = length (garr_userdata s)"
    and "\<And>q k. q < 16 \<Longrightarrow> k < 3 \<Longrightarrow> blk t q k = blk s q k"
    and "g_userdata_size t = g_userdata_size s"
    and "g_userdata_firstpos t = g_userdata_firstpos s"
    and "g_userdata_lastpos t = g_userdata_lastpos s"
    and "g_userdata_currpos t = g_userdata_currpos s"
    and pc: "pool_chain s c"
  shows "pool_chain t c"
proof -
  have lt: "q < 16" if "q \<in> set c" for q
    using pool_chain_lt [OF pc that] .
  have "linked (blk t) c = linked (blk s) c"
    by (rule linked_cong_all) (use assms(2) lt in auto)
  moreover have "used t q = used s q" if "q < 16" for q
    using assms(2) [OF that, of 0] by (simp add: used_def)
  ultimately show ?thesis
    using pc assms(1,3-6) by (simp add: pool_chain_def list_all_iff)
qed

lemma vf_add_buff_adv_hist3_frame:
  "garr_userdata (snd (vf_add_buff_adv_hist3 i s)) = garr_userdata s"
  "g_userdata_size (snd (vf_add_buff_adv_hist3 i s)) = g_userdata_size s"
  "g_userdata_firstpos (snd (vf_add_buff_adv_hist3 i s)) = g_userdata_firstpos s"
  "g_userdata_lastpos (snd (vf_add_buff_adv_hist3 i s)) = g_userdata_lastpos s"
  "g_userdata_currpos (snd (vf_add_buff_adv_hist3 i s)) = g_userdata_currpos s"
  "uart_relay (snd (vf_add_buff_adv_hist3 i s)) = uart_relay s"
  "phone (snd (vf_add_buff_adv_hist3 i s)) = phone s"
  "g_packetID (snd (vf_add_buff_adv_hist3 i s)) = g_packetID s"
  "adv_data_buf (snd (vf_add_buff_adv_hist3 i s)) = adv_data_buf s"
  "adv_len (snd (vf_add_buff_adv_hist3 i s)) = adv_len s"
  "org_adv_data_size (snd (vf_add_buff_adv_hist3 i s)) = org_adv_data_size s"
  "relay_data (snd (vf_add_buff_adv_hist3 i s)) = relay_data s"
  by (simp_all add: vf_add_buff_adv_hist3_def Let_def)

lemma vf_add_buff_adv_hist3_blk [simp]:
  "blk (snd (vf_add_buff_adv_hist3 i s)) = blk s"
  by (simp add: blk_def fun_eq_iff vf_add_buff_adv_hist3_frame)

lemma vf_add_buff_adv_hist3_used [simp]:
  "used (snd (vf_add_buff_adv_hist3 i s)) = used s"
  by (simp add: used_def fun_eq_iff)

lemma vf_add_buff_adv_hist3_pool_chain [simp]:
  "pool_chain (snd (vf_add_buff_adv_hist3 i s)) c = pool_chain s c"
  by (simp add: pool_chain_def vf_add_buff_adv_hist3_frame)

text \<open>After the insertion the identifier is in the history buffer, and the ring is intact.\<close>

lemma vf_add_buff_adv_hist3_in_hist:
  assumes wf: "hist_wf s"
  shows "hist_wf (snd (vf_add_buff_adv_hist3 i s))"
    and "in_hist (snd (vf_add_buff_adv_hist3 i s)) i"
proof -
  show w: "hist_wf (snd (vf_add_buff_adv_hist3 i s))"
    using wf vf_add_buff_adv_hist3_live(1) [OF wf] vf_add_buff_adv_hist3_present [of s i]
    by (cases "in_hist s i") simp_all
  show "in_hist (snd (vf_add_buff_adv_hist3 i s)) i"
  proof (cases "in_hist s i")
    case True
    then show ?thesis
      by (simp add: vf_add_buff_adv_hist3_present)
  next
    case False
    show ?thesis
      by (simp add: in_hist_iff [OF w] vf_add_buff_adv_hist3_live(2) [OF wf False])
  qed
qed

lemma hist_wf_pool_update:
  "g_buff_adv_hist t = g_buff_adv_hist s \<Longrightarrow>
   g_buff_adv_hist_size t = g_buff_adv_hist_size s \<Longrightarrow>
   g_buff_adv_hist_firstpos t = g_buff_adv_hist_firstpos s \<Longrightarrow>
   g_buff_adv_hist_lastpos t = g_buff_adv_hist_lastpos s \<Longrightarrow> hist_wf t = hist_wf s"
  by (simp add: hist_wf_def)

lemma vf_delete_block_buffer3_hist:
  "g_buff_adv_hist (vf_delete_block_buffer3 False s) = g_buff_adv_hist s"
  "g_buff_adv_hist_size (vf_delete_block_buffer3 False s) = g_buff_adv_hist_size s"
  "g_buff_adv_hist_firstpos (vf_delete_block_buffer3 False s) = g_buff_adv_hist_firstpos s"
  "g_buff_adv_hist_lastpos (vf_delete_block_buffer3 False s) = g_buff_adv_hist_lastpos s"
  "uart_relay (vf_delete_block_buffer3 False s) = uart_relay s"
  by (simp_all add: vf_delete_block_buffer3_def Let_def)

lemma vf_relay_adv_data3_send_blk:
  "vf_relay_adv_data3_send s =
     (let s1 = vf_relay_adv_data3_copy s
      in if blk s1 (g_userdata_currpos s1) 3 = 0 then vf_delete_block_buffer3 True s1
         else if g_userdata_currpos s1 = g_userdata_lastpos s1
         then s1\<lparr>g_userdata_currpos := g_userdata_firstpos s1\<rparr>
         else s1\<lparr>g_userdata_currpos := unat (blk s1 (g_userdata_currpos s1) 1)\<rparr>)"
  by (simp add: vf_relay_adv_data3_send_def blk_def Let_def)

lemma vf_relay_adv_data3_copy_garr:
  "garr_userdata (vf_relay_adv_data3_copy s) =
     (garr_userdata s)[adr (g_userdata_currpos s) 3 := blk s (g_userdata_currpos s) 3 - 1]"
  by (simp add: vf_relay_adv_data3_copy_def Let_def blk_def adr_def
      MAX_USERDATA_BUFFER_BLOCKSIZE_def)

lemma vf_relay_adv_data3_copy_blk:
  assumes "length (garr_userdata s) = 512" "g_userdata_currpos s < 16" "q < 16" "k < 32"
  shows "blk (vf_relay_adv_data3_copy s) q k =
           (if q = g_userdata_currpos s \<and> k = 3 then blk s q 3 - 1 else blk s q k)"
  using assms by (auto simp add: blk_adr vf_relay_adv_data3_copy_garr adr_eq adr_lt)

lemma vf_relay_adv_data3_copy_frame:
  "length (garr_userdata (vf_relay_adv_data3_copy s)) = length (garr_userdata s)"
  "g_userdata_size (vf_relay_adv_data3_copy s) = g_userdata_size s"
  "g_userdata_firstpos (vf_relay_adv_data3_copy s) = g_userdata_firstpos s"
  "g_userdata_lastpos (vf_relay_adv_data3_copy s) = g_userdata_lastpos s"
  "g_userdata_currpos (vf_relay_adv_data3_copy s) = g_userdata_currpos s"
  "g_buff_adv_hist (vf_relay_adv_data3_copy s) = g_buff_adv_hist s"
  "g_buff_adv_hist_size (vf_relay_adv_data3_copy s) = g_buff_adv_hist_size s"
  "g_buff_adv_hist_firstpos (vf_relay_adv_data3_copy s) = g_buff_adv_hist_firstpos s"
  "g_buff_adv_hist_lastpos (vf_relay_adv_data3_copy s) = g_buff_adv_hist_lastpos s"
  "\<exists>pkt. uart_relay (vf_relay_adv_data3_copy s) = uart_relay s @ [(g_userdata_currpos s, pkt)]"
  by (simp_all add: vf_relay_adv_data3_copy_def Let_def)

lemma vf_relay_adv_data3_copy_chain:
  assumes pc: "pool_chain s c" and ne: "c \<noteq> []"
  shows "pool_chain (vf_relay_adv_data3_copy s) c"
proof (rule pool_chain_cong [OF _ _ _ _ _ _ pc])
  from pc ne have cur: "g_userdata_currpos s < 16"
    using pool_chain_lt [OF pc] by (simp add: pool_chain_def)
  from pc have len: "length (garr_userdata s) = 512"
    by (simp add: pool_chain_def)
  show "blk (vf_relay_adv_data3_copy s) q k = blk s q k" if "q < 16" "k < 3" for q k
    using that by (simp add: vf_relay_adv_data3_copy_blk [OF len cur])
qed (simp_all add: vf_relay_adv_data3_copy_frame)

lemma blocks_okD: "blocks_ok s \<Longrightarrow> p < 16 \<Longrightarrow> used s p \<Longrightarrow> blk s p 4 \<noteq> 0 \<and> blk s p 3 \<noteq> 0"
  by (simp add: blocks_ok_def list_all_iff)

lemma blocks_okI:
  "(\<And>p. p < 16 \<Longrightarrow> used s p \<Longrightarrow> blk s p 4 \<noteq> 0 \<and> blk s p 3 \<noteq> 0) \<Longrightarrow> blocks_ok s"
  by (simp add: blocks_ok_def list_all_iff)

lemma blk_currpos [simp]: "blk (s\<lparr>g_userdata_currpos := x\<rparr>) = blk s"
  by (simp add: blk_def fun_eq_iff)

lemma pool_chain_currpos:
  "pool_chain s c \<Longrightarrow> x \<in> set c \<Longrightarrow> pool_chain (s\<lparr>g_userdata_currpos := x\<rparr>) c"
  by (simp add: pool_chain_def used_def)

lemma vf_relay_adv_data3_tick:
  "0 < g_userdata_size s \<Longrightarrow> blk s (g_userdata_currpos s) 4 \<noteq> 0 \<Longrightarrow>
   vf_relay_adv_data3 s = vf_relay_adv_data3_send s"
  by (subst vf_relay_adv_data3.simps) (simp add: blk_def)


text \<open>One advertisement of the block at the cursor.\<close>

lemma vf_relay_adv_data3_send_step:
  assumes pc: "pool_chain s (xs @ cur # ys)" and cur: "g_userdata_currpos s = cur"
    and wf: "hist_wf s"
  shows "\<exists>pkt. uart_relay (vf_relay_adv_data3_send s) = uart_relay s @ [(cur, pkt)]"
    and "hist_wf (vf_relay_adv_data3_send s)"
    and "\<And>q k. q < 16 \<Longrightarrow> k < 32 \<Longrightarrow> 3 \<le> k \<Longrightarrow>
           blk (vf_relay_adv_data3_send s) q k =
             (if q = cur \<and> k = 3 then blk s cur 3 - 1 else blk s q k)"
    and "blk s cur 3 = 1 \<Longrightarrow>
           pool_chain (vf_relay_adv_data3_send s) (xs @ ys) \<and>
           in_hist (vf_relay_adv_data3_send s) (blk_ids s cur)"
    and "blk s cur 3 \<noteq> 1 \<Longrightarrow> pool_chain (vf_relay_adv_data3_send s) (xs @ cur # ys)"
proof -
  let ?c = "xs @ cur # ys"
  let ?s1 = "vf_relay_adv_data3_copy s"
  let ?s' = "vf_relay_adv_data3_send s"
  from pc have len: "length (garr_userdata s) = 512"
    by (simp add: pool_chain_def)
  have c16: "cur < 16"
    by (rule pool_chain_lt [OF pc]) simp
  have cur16: "g_userdata_currpos s < 16"
    using c16 cur by simp
  note b1 = vf_relay_adv_data3_copy_blk [OF len cur16]
  note fr = vf_relay_adv_data3_copy_frame [of s]
  have pc1: "pool_chain ?s1 ?c"
    by (rule vf_relay_adv_data3_copy_chain [OF pc]) simp
  have cur1: "g_userdata_currpos ?s1 = cur"
    by (simp add: fr cur)
  have wf1: "hist_wf ?s1"
    using wf by (simp add: hist_wf_def fr)
  have z: "blk ?s1 cur 3 = 0 \<longleftrightarrow> blk s cur 3 = 1"
    using c16 cur by (auto simp add: b1)
  have sz1: "g_userdata_size ?s1 \<noteq> 0"
    using pc1 by (auto simp add: pool_chain_def)
  have ids1: "ids_of (blk ?s1 cur 5) (blk ?s1 cur 6) (blk ?s1 cur 7) = blk_ids s cur"
    using c16 by (simp add: b1 blk_ids_def)
  let ?d = "vf_delete_block_buffer3 False ?s1"
  note dl = vf_delete_block_buffer3_chain [OF pc1 cur1]
  have rel: "?s' = snd (vf_add_buff_adv_hist3 (blk_ids s cur) ?d)" if "blk s cur 3 = 1"
    using that z sz1 ids1
    by (simp add: vf_relay_adv_data3_send_blk Let_def cur1 vf_delete_block_buffer3_True)
  have wfd: "hist_wf ?d"
    using wf1 by (simp add: hist_wf_def vf_delete_block_buffer3_hist)
  have adv: "?s' = ?s1\<lparr>g_userdata_currpos :=
               (if cur = g_userdata_lastpos s then g_userdata_firstpos s
                else unat (blk s cur 1))\<rparr>" if "blk s cur 3 \<noteq> 1"
    using that z c16
    by (simp add: vf_relay_adv_data3_send_blk Let_def cur1 fr b1)
  show "\<exists>pkt. uart_relay ?s' = uart_relay s @ [(cur, pkt)]"
  proof (cases "blk s cur 3 = 1")
    case True
    then show ?thesis
      using fr(10) cur by (simp add: rel vf_add_buff_adv_hist3_frame vf_delete_block_buffer3_hist)
  next
    case False
    then show ?thesis
      using fr(10) cur by (simp add: adv)
  qed
  show "hist_wf ?s'"
  proof (cases "blk s cur 3 = 1")
    case True
    then show ?thesis
      by (simp add: rel vf_add_buff_adv_hist3_in_hist(1) [OF wfd])
  next
    case False
    then show ?thesis
      using wf1 by (simp add: adv hist_wf_def)
  qed
  show "blk ?s' q k = (if q = cur \<and> k = 3 then blk s cur 3 - 1 else blk s q k)"
    if "q < 16" "k < 32" "3 \<le> k" for q k
  proof (cases "blk s cur 3 = 1")
    case True
    then show ?thesis
      using that cur by (simp add: rel dl(3) b1)
  next
    case False
    then show ?thesis
      using that cur by (simp add: adv blk_def b1 [unfolded blk_def])
  qed
  show "pool_chain ?s' (xs @ ys) \<and> in_hist ?s' (blk_ids s cur)" if "blk s cur 3 = 1"
    using that dl(1) by (simp add: rel vf_add_buff_adv_hist3_in_hist(2) [OF wfd])
  show "pool_chain ?s' ?c" if ne: "blk s cur 3 \<noteq> 1"
  proof -
    from pc have la: "last ?c = g_userdata_lastpos s" and hd: "hd ?c = g_userdata_firstpos s"
      and dc: "distinct ?c" and lk: "linked (blk s) ?c"
      by (simp_all add: pool_chain_def)
    have "(if cur = g_userdata_lastpos s then g_userdata_firstpos s else unat (blk s cur 1)) \<in> set ?c"
    proof (cases "cur = g_userdata_lastpos s")
      case True
      then show ?thesis
        using hd hd_in_set [of ?c] by simp
    next
      case False
      with la have "ys \<noteq> []" by auto
      with lk have "unat (blk s cur 1) = hd ys"
        by (simp add: linked_append linked_Cons)
      with \<open>ys \<noteq> []\<close> False show ?thesis by simp
    qed
    then show ?thesis
      by (simp only: adv [OF ne]) (rule pool_chain_currpos [OF pc1])
  qed
qed

declare vf_relay_adv_data3.simps [simp del]

lemma relay_n_0 [simp]: "relay_n 0 s = s"
  by (simp add: relay_n_def)


lemma budget_append [simp]: "budget s (xs @ ys) = budget s xs + budget s ys"
  by (simp add: budget_def)

lemma budget_Cons [simp]: "budget s (p # ps) = unat (blk s p 3) + budget s ps"
  by (simp add: budget_def)





subsection \<open>How many blocks are in use\<close>

lemma pool_chain_room:
  assumes pc: "pool_chain s c" and p: "p < 16" and free: "\<not> used s p"
  shows "g_userdata_size s < 16"
proof -
  from pc have d: "distinct c" and lt: "\<And>q. q \<in> set c \<Longrightarrow> q < 16"
    and len: "length c = g_userdata_size s"
    by (simp_all add: pool_chain_def list_all_iff)
  from pool_chain_used [OF pc p] free have "p \<notin> set c"
    by simp
  with lt p have "set c \<subseteq> {0..<16} - {p}"
    by auto
  then have "card (set c) \<le> card ({0..<16} - {p})"
    by (intro card_mono) simp_all
  also have "card ({0..<16} - {p}) = 15"
    using p by simp
  finally show ?thesis
    using d len by (simp add: distinct_card)
qed

lemma pool_chain_full:
  assumes pc: "pool_chain s c" and all: "\<And>p. p < 16 \<Longrightarrow> used s p"
  shows "g_userdata_size s = 16"
proof -
  from pc have d: "distinct c" and lt: "\<And>q. q \<in> set c \<Longrightarrow> q < 16"
    and len: "length c = g_userdata_size s"
    by (simp_all add: pool_chain_def list_all_iff)
  have "set c = {0..<16}"
    using lt all pool_chain_used [OF pc] by auto
  then have "card (set c) = 16"
    by simp
  then show ?thesis
    using d len by (simp add: distinct_card)
qed

lemma pool_chain_full_iff:
  "pool_chain s c \<Longrightarrow> 16 \<le> g_userdata_size s \<longleftrightarrow> (\<forall>p<16. used s p)"
  using pool_chain_room [of s c] pool_chain_full [of s c]
  by (metis le_refl not_le)

lemma vf_add_packet_to_buffer3_fails_iff:
  "pool_chain s c \<Longrightarrow> fst (vf_add_packet_to_buffer3 d s) \<noteq> 0 \<longleftrightarrow> (\<forall>p<16. used s p)"
  by (simp only: vf_add_packet_to_buffer3_fails pool_chain_full_iff) blast

lemma free_slot_None: "free_slot s = None \<longleftrightarrow> (\<forall>p<16. used s p)"
  by (simp add: free_slot_def find_free_None used_def blk_def MAX_USERDATA_BUFFER_BLOCK_def)

lemma pool_chain_Nil_free: "pool_chain s [] \<Longrightarrow> free_slot s = Some 0"
proof -
  assume pc: "pool_chain s []"
  then have "\<not> used s 0"
    using pool_chain_used [OF pc, of 0] by simp
  then have "\<exists>p<16. \<not> used s p"
    by (intro exI [of _ 0]) simp
  then have "free_slot s \<noteq> None"
    by (simp add: free_slot_None)
  then obtain pos where f: "free_slot s = Some pos"
    by blast
  from free_slot_Some [OF f] \<open>\<not> used s 0\<close> have "pos = 0"
    by (cases "pos = 0") auto
  with f show ?thesis
    by simp
qed

subsection \<open>What each function leaves alone\<close>

lemma vf_add_packet_to_buffer3_frame:
  "g_packetID (snd (vf_add_packet_to_buffer3 d s)) = g_packetID s"
  "g_buff_adv_hist (snd (vf_add_packet_to_buffer3 d s)) = g_buff_adv_hist s"
  "g_buff_adv_hist_size (snd (vf_add_packet_to_buffer3 d s)) = g_buff_adv_hist_size s"
  "g_buff_adv_hist_firstpos (snd (vf_add_packet_to_buffer3 d s)) = g_buff_adv_hist_firstpos s"
  "g_buff_adv_hist_lastpos (snd (vf_add_packet_to_buffer3 d s)) = g_buff_adv_hist_lastpos s"
  "uart_relay (snd (vf_add_packet_to_buffer3 d s)) = uart_relay s"
  "phone (snd (vf_add_packet_to_buffer3 d s)) = phone s"
  by (simp_all add: vf_add_packet_to_buffer3_def Let_def split: option.split)

lemma vf_delete_block_buffer3_False_packetID:
  "g_packetID (vf_delete_block_buffer3 False s) = g_packetID s"
  by (simp add: vf_delete_block_buffer3_def Let_def)

lemma vf_delete_block_buffer3_packetID:
  "g_packetID (vf_delete_block_buffer3 c s) = g_packetID s"
proof (cases c)
  case False
  then show ?thesis
    by (simp add: vf_delete_block_buffer3_False_packetID)
next
  case True
  then show ?thesis
    by (simp add: vf_delete_block_buffer3_True vf_add_buff_adv_hist3_frame
        vf_delete_block_buffer3_False_packetID)
qed

lemma vf_relay_adv_data3_send_packetID:
  "g_packetID (vf_relay_adv_data3_send s) = g_packetID s"
proof -
  have "g_packetID (vf_relay_adv_data3_copy s) = g_packetID s"
    by (simp add: vf_relay_adv_data3_copy_def Let_def)
  then show ?thesis
    by (simp add: vf_relay_adv_data3_send_def Let_def vf_delete_block_buffer3_packetID)
qed

lemma vf_relay_adv_data3_packetID:
  "g_packetID (vf_relay_adv_data3 s) = g_packetID s"
proof (induction s rule: vf_relay_adv_data3.induct)
  case (1 s)
  have inv: "g_packetID (vf_relay_adv_data3_invalid s) = g_packetID s"
    by (simp add: vf_relay_adv_data3_invalid_def vf_stop_broadcast_data_def Let_def
        vf_delete_block_buffer3_False_packetID)
  show ?case
  proof (cases "0 < g_userdata_size s")
    case False
    then show ?thesis
      by (subst vf_relay_adv_data3.simps) simp
  next
    case True
    show ?thesis
    proof (cases "garr_userdata s ! (g_userdata_currpos s * MAX_USERDATA_BUFFER_BLOCKSIZE + 4) = 0")
      case z: True
      from 1 [OF True z] inv True z show ?thesis
        by (subst vf_relay_adv_data3.simps) simp
    next
      case nz: False
      with True show ?thesis
        by (subst vf_relay_adv_data3.simps) (simp add: vf_relay_adv_data3_send_packetID)
    qed
  qed
qed

lemma refresh_store_packetID: "g_packetID (refresh_store st s) = g_packetID s"
  by (cases st) (simp add: refresh_store_def)

lemma vf_refresh_history_buff_callback_packetID:
  "g_packetID (vf_refresh_history_buff_callback j s) = g_packetID s"
  by (simp add: vf_refresh_history_buff_callback_def Let_def refresh_store_packetID)

lemma on_adv_report_packetID: "g_packetID (on_adv_report i d s) = g_packetID s"
  by (simp add: on_adv_report_def vf_process_adv_command3_def Let_def
      vf_add_packet_to_buffer3_frame vf_add_buff_adv_hist3_frame)

lemma vf_adv_thingy_data_packetID:
  "g_packetID (vf_adv_thingy_data code d s) = g_packetID s + 1"
  by (simp add: vf_adv_thingy_data_def vf_add_packet_to_buffer3_frame)

lemma step_packetID:
  "g_packetID (step code e s) = g_packetID s + (if is_Submit e then 1 else 0)"
  by (cases e)
    (simp_all add: step_def is_Submit_def on_adv_report_packetID vf_adv_thingy_data_packetID
      vf_relay_adv_data3_packetID vf_refresh_history_buff_callback_packetID
      vf_start_broadcast_data_def vf_add_packet_to_buffer3_frame)

lemma run_packetID:
  "g_packetID (run code es s) = g_packetID s + of_nat (submits es)"
proof (induction es arbitrary: s)
  case Nil
  show ?case by (simp add: submits_def)
next
  case (Cons e es)
  show ?case
    by (simp add: Cons.IH step_packetID submits_def)
qed

subsection \<open>A packet added to a well-formed buffer\<close>

lemma vf_add_packet_to_buffer3_stored:
  assumes pc: "pool_chain s c" and f: "free_slot s = Some pos" and dl: "length d \<le> 27"
  shows "fst (vf_add_packet_to_buffer3 d s) = 0"
    and "pool_chain (snd (vf_add_packet_to_buffer3 d s)) (c @ [pos])"
    and "\<And>q k. q < 16 \<Longrightarrow> k < 32 \<Longrightarrow> 3 \<le> k \<Longrightarrow>
           blk (snd (vf_add_packet_to_buffer3 d s)) q k =
             (if q = pos then
                (if k = 3 then 2 else if k = 4 then of_nat (length d + 1)
                 else if k < 5 + length d then d ! (k - 5) else blk s q k)
              else blk s q k)"
proof -
  from free_slot_Some [OF f] have p: "pos < 16" "\<not> used s pos"
    by simp_all
  have sz: "g_userdata_size s < 16"
    by (rule pool_chain_room [OF pc p])
  from p sz show ok: "fst (vf_add_packet_to_buffer3 d s) = 0"
    using vf_add_packet_to_buffer3_fails [of d s] by auto
  from vf_add_packet_to_buffer3_chain [OF pc ok dl] f
  show "pool_chain (snd (vf_add_packet_to_buffer3 d s)) (c @ [pos])"
    by simp
  from pc have len: "length (garr_userdata s) = 512"
    by (simp add: pool_chain_def)
  have lp: "g_userdata_lastpos s < 16" if "g_userdata_size s \<noteq> 0"
  proof -
    from pc that have "c \<noteq> []" "last c = g_userdata_lastpos s"
      by (auto simp add: pool_chain_def)
    then have "g_userdata_lastpos s \<in> set c"
      using last_in_set by metis
    then show ?thesis
      by (rule pool_chain_lt [OF pc])
  qed
  show "blk (snd (vf_add_packet_to_buffer3 d s)) q k =
             (if q = pos then
                (if k = 3 then 2 else if k = 4 then of_nat (length d + 1)
                 else if k < 5 + length d then d ! (k - 5) else blk s q k)
              else blk s q k)"
    if "q < 16" "k < 32" "3 \<le> k" for q k
    using that by (simp add: vf_add_packet_to_buffer3_blk [OF sz f len dl lp])
qed

lemma in_hist_cong:
  "g_buff_adv_hist t = g_buff_adv_hist s \<Longrightarrow>
   g_buff_adv_hist_size t = g_buff_adv_hist_size s \<Longrightarrow>
   g_buff_adv_hist_firstpos t = g_buff_adv_hist_firstpos s \<Longrightarrow>
   g_buff_adv_hist_lastpos t = g_buff_adv_hist_lastpos s \<Longrightarrow>
   vf_find_id_buff_adv_hist3 i t = vf_find_id_buff_adv_hist3 i s \<and> in_hist t i = in_hist s i"
  by (simp add: in_hist_def vf_find_id_buff_adv_hist3_def cong: option.case_cong)

lemma hist_wf_add_packet [simp]:
  "hist_wf (snd (vf_add_packet_to_buffer3 d s)) = hist_wf s"
  by (rule hist_wf_pool_update) (simp_all add: vf_add_packet_to_buffer3_frame)

lemma in_hist_add_packet [simp]:
  "in_hist (snd (vf_add_packet_to_buffer3 d s)) x = in_hist s x"
  by (rule in_hist_cong [THEN conjunct2]) (simp_all add: vf_add_packet_to_buffer3_frame)

lemma blk_packetID [simp]: "blk (s\<lparr>g_packetID := x\<rparr>) = blk s"
  by (simp add: blk_def fun_eq_iff)

lemma used_packetID [simp]: "used (s\<lparr>g_packetID := x\<rparr>) = used s"
  by (simp add: used_def fun_eq_iff)

lemma free_slot_packetID [simp]: "free_slot (s\<lparr>g_packetID := x\<rparr>) = free_slot s"
  by (simp add: free_slot_def)

lemma pool_chain_packetID [simp]: "pool_chain (s\<lparr>g_packetID := x\<rparr>) c = pool_chain s c"
  by (simp add: pool_chain_def)

lemma hist_wf_packetID [simp]: "hist_wf (s\<lparr>g_packetID := x\<rparr>) = hist_wf s"
  by (simp add: hist_wf_def)

lemma in_hist_packetID [simp]: "in_hist (s\<lparr>g_packetID := x\<rparr>) i = in_hist s i"
  by (rule in_hist_cong [THEN conjunct2]) simp_all

lemma length_thingy_packet: "length (thingy_packet code d n) \<le> 15"
  by (cases "link_state d") (simp_all add: thingy_packet_def)

text \<open>The block a local event adds carries the packet number the counter had.\<close>

lemma vf_adv_thingy_data_stored:
  assumes pc: "pool_chain s c" and f: "free_slot s = Some pos"
  shows "pool_chain (vf_adv_thingy_data code d s) (c @ [pos])"
    and "identity (vf_adv_thingy_data code d s) pos = (CLUSTER_ID, SINK_ID, g_packetID s)"
    and "blk (vf_adv_thingy_data code d s) pos 3 = 2"
    and "blk (vf_adv_thingy_data code d s) pos 4 \<noteq> 0"
    and "hist_wf (vf_adv_thingy_data code d s) = hist_wf s"
proof -
  let ?d = "thingy_packet code d (g_packetID s)"
  let ?s0 = "s\<lparr>g_packetID := g_packetID s + 1\<rparr>"
  have dl: "length ?d \<le> 27"
    using length_thingy_packet [of code d "g_packetID s"] by simp
  have d6: "6 \<le> length ?d"
    by (simp add: thingy_packet_def)
  have pc0: "pool_chain ?s0 c" and f0: "free_slot ?s0 = Some pos"
    using pc f by simp_all
  from free_slot_Some [OF f] have p: "pos < 16"
    by simp
  note st = vf_add_packet_to_buffer3_stored [OF pc0 f0 dl]
  show "pool_chain (vf_adv_thingy_data code d s) (c @ [pos])"
    using st(2) by (simp add: vf_adv_thingy_data_def)
  have b: "blk (vf_adv_thingy_data code d s) pos k =
        (if k = 3 then 2 else if k = 4 then of_nat (length ?d + 1)
         else if k < 5 + length ?d then ?d ! (k - 5) else blk s pos k)"
    if "k < 32" "3 \<le> k" for k
    using st(3) [OF p that] by (simp add: vf_adv_thingy_data_def)
  have "blk (vf_adv_thingy_data code d s) pos 5 = ?d ! 0"
    "blk (vf_adv_thingy_data code d s) pos 6 = ?d ! 1"
    "blk (vf_adv_thingy_data code d s) pos 7 = ?d ! 2"
    using d6 by (auto simp add: b)
  then show "identity (vf_adv_thingy_data code d s) pos = (CLUSTER_ID, SINK_ID, g_packetID s)"
    by (simp add: identity_def thingy_packet_def)
  show "blk (vf_adv_thingy_data code d s) pos 3 = 2"
    by (simp add: b)
  have "blk (vf_adv_thingy_data code d s) pos 4 = of_nat (length ?d + 1)"
    by (simp add: b)
  moreover have "(of_nat (length ?d + 1) :: byte) \<noteq> 0"
    using dl by (intro byte_of_nat_neq_0) simp_all
  ultimately show "blk (vf_adv_thingy_data code d s) pos 4 \<noteq> 0"
    by simp
  show "hist_wf (vf_adv_thingy_data code d s) = hist_wf s"
    by (simp add: vf_adv_thingy_data_def)
qed

subsection \<open>A buffer that holds one block\<close>

lemma vf_relay_adv_data3_single:
  assumes pc: "pool_chain s [p]" and wf: "hist_wf s" and sz: "blk s p 4 \<noteq> 0"
  shows "blk s p 3 = 1 \<Longrightarrow>
           pool_chain (vf_relay_adv_data3 s) [] \<and> hist_wf (vf_relay_adv_data3 s) \<and>
           in_hist (vf_relay_adv_data3 s) (blk_ids s p)"
    and "blk s p 3 \<noteq> 1 \<Longrightarrow>
           pool_chain (vf_relay_adv_data3 s) [p] \<and> hist_wf (vf_relay_adv_data3 s) \<and>
           blk (vf_relay_adv_data3 s) p 3 = blk s p 3 - 1 \<and>
           blk (vf_relay_adv_data3 s) p 4 = blk s p 4"
proof -
  from pc have cur: "g_userdata_currpos s = p" and n: "0 < g_userdata_size s" and p: "p < 16"
    by (auto simp add: pool_chain_def)
  have tick: "vf_relay_adv_data3 s = vf_relay_adv_data3_send s"
    using n sz by (intro vf_relay_adv_data3_tick) (simp_all add: cur)
  from pc have pc': "pool_chain s ([] @ p # [])"
    by simp
  note st = vf_relay_adv_data3_send_step [OF pc' cur wf]
  show "pool_chain (vf_relay_adv_data3 s) [] \<and> hist_wf (vf_relay_adv_data3 s) \<and>
           in_hist (vf_relay_adv_data3 s) (blk_ids s p)" if "blk s p 3 = 1"
    using st(4) [OF that] st(2) by (simp add: tick)
  show "pool_chain (vf_relay_adv_data3 s) [p] \<and> hist_wf (vf_relay_adv_data3 s) \<and>
           blk (vf_relay_adv_data3 s) p 3 = blk s p 3 - 1 \<and>
           blk (vf_relay_adv_data3 s) p 4 = blk s p 4" if "blk s p 3 \<noteq> 1"
    using st(5) [OF that] st(2) st(3) [OF p, of 3] st(3) [OF p, of 4] by (simp add: tick)
qed

text \<open>
  From an empty buffer, a local event and two runs of the advertising timer leave the
  buffer empty again.
\<close>

lemma idle_cycle:
  assumes pc: "pool_chain s []" and wf: "hist_wf s"
  shows "pool_chain (run code [Submit d, Relay, Relay] s) [] \<and>
         hist_wf (run code [Submit d, Relay, Relay] s)"
proof -
  let ?s1 = "vf_adv_thingy_data code d s"
  let ?s2 = "vf_relay_adv_data3 ?s1"
  let ?s3 = "vf_relay_adv_data3 ?s2"
  have f: "free_slot s = Some 0"
    by (rule pool_chain_Nil_free [OF pc])
  note a = vf_adv_thingy_data_stored [OF pc f, of code d]
  from a(1) have pc1: "pool_chain ?s1 [0]"
    by simp
  from a(5) wf have wf1: "hist_wf ?s1"
    by simp
  from a(3) have ne1: "blk ?s1 0 3 \<noteq> 1"
    by simp
  note b = vf_relay_adv_data3_single(2) [OF pc1 wf1 a(4) ne1]
  from b a(3) have one: "blk ?s2 0 3 = 1"
    by simp
  from b a(4) have sz2: "blk ?s2 0 4 \<noteq> 0"
    by simp
  from b have pc2: "pool_chain ?s2 [0]" and wf2: "hist_wf ?s2"
    by simp_all
  note c = vf_relay_adv_data3_single(1) [OF pc2 wf2 sz2 one]
  have "run code [Submit d, Relay, Relay] s = ?s3"
    by (simp add: step_def)
  with c show ?thesis
    by simp
qed

lemma idle_cycles:
  assumes pc: "pool_chain s []" and wf: "hist_wf s"
  shows "pool_chain (run code (concat (replicate n [Submit d, Relay, Relay])) s) [] \<and>
         hist_wf (run code (concat (replicate n [Submit d, Relay, Relay])) s)"
  using assms
proof (induction n arbitrary: s)
  case 0
  then show ?case by simp
next
  case (Suc n)
  have "run code (concat (replicate (Suc n) [Submit d, Relay, Relay])) s =
        run code (concat (replicate n [Submit d, Relay, Relay]))
          (run code [Submit d, Relay, Relay] s)"
    by (simp only: replicate_Suc concat.simps run_append)
  moreover note idle_cycle [OF Suc.prems, of code d]
  ultimately show ?case
    using Suc.IH [of "run code [Submit d, Relay, Relay] s"] by simp
qed

lemma submits_cycles: "submits (concat (replicate n [Submit d, Relay, Relay])) = n"
  by (induction n) (simp_all add: submits_def is_Submit_def)

lemma pool_chain_boot: "pool_chain (boot enc) []"
  by (simp add: pool_chain_def boot_def used_def blk_def list_all_iff
      MAX_USERDATA_BUFFER_BLOCKSIZE_def)

lemma hist_wf_boot: "hist_wf (boot enc)"
  by (simp add: hist_wf_def boot_def)

subsection \<open>The packet of one advertisement\<close>

lemma memcpy_append:
  "at + length xs \<le> length dst \<Longrightarrow>
   memcpy dst at xs = take at dst @ xs @ drop (at + length xs) dst"
proof (induction xs arbitrary: dst at)
  case Nil
  show ?case by simp
next
  case (Cons x xs)
  from Cons.prems have at: "at < length dst" and rest: "Suc at + length xs \<le> length (dst[at := x])"
    by simp_all
  have "memcpy dst at (x # xs) = memcpy (dst[at := x]) (Suc at) xs"
    by simp
  also have "\<dots> = take (Suc at) (dst[at := x]) @ xs @ drop (Suc at + length xs) (dst[at := x])"
    by (rule Cons.IH [OF rest])
  also have "take (Suc at) (dst[at := x]) = take at dst @ [x]"
    using at by (simp add: take_Suc_conv_app_nth)
  also have "drop (Suc at + length xs) (dst[at := x]) = drop (at + length (x # xs)) dst"
    by simp
  finally show ?case
    by simp
qed

lemma vf_delete_block_buffer3_False_adv:
  "relay_data (vf_delete_block_buffer3 False s) = relay_data s"
  "adv_data_buf (vf_delete_block_buffer3 False s) = adv_data_buf s"
  "org_adv_data_size (vf_delete_block_buffer3 False s) = org_adv_data_size s"
  "adv_len (vf_delete_block_buffer3 False s) = adv_len s"
  "phone (vf_delete_block_buffer3 False s) = phone s"
  by (simp_all add: vf_delete_block_buffer3_adr Let_def)

lemma vf_relay_adv_data3_send_cases:
  assumes pc: "pool_chain s (xs @ cur # ys)" and cur: "g_userdata_currpos s = cur"
  shows "blk s cur 3 = 1 \<Longrightarrow>
           vf_relay_adv_data3_send s =
             snd (vf_add_buff_adv_hist3 (blk_ids s cur)
                    (vf_delete_block_buffer3 False (vf_relay_adv_data3_copy s)))"
    and "blk s cur 3 \<noteq> 1 \<Longrightarrow>
           vf_relay_adv_data3_send s =
             (vf_relay_adv_data3_copy s)\<lparr>g_userdata_currpos :=
               (if cur = g_userdata_lastpos s then g_userdata_firstpos s
                else unat (blk s cur 1))\<rparr>"
proof -
  let ?c = "xs @ cur # ys"
  let ?s1 = "vf_relay_adv_data3_copy s"
  let ?s' = "vf_relay_adv_data3_send s"
  from pc have len: "length (garr_userdata s) = 512"
    by (simp add: pool_chain_def)
  have c16: "cur < 16"
    by (rule pool_chain_lt [OF pc]) simp
  have cur16: "g_userdata_currpos s < 16"
    using c16 cur by simp
  note b1 = vf_relay_adv_data3_copy_blk [OF len cur16]
  note fr = vf_relay_adv_data3_copy_frame [of s]
  have pc1: "pool_chain ?s1 ?c"
    by (rule vf_relay_adv_data3_copy_chain [OF pc]) simp
  have cur1: "g_userdata_currpos ?s1 = cur"
    by (simp add: fr cur)
  have z: "blk ?s1 cur 3 = 0 \<longleftrightarrow> blk s cur 3 = 1"
    using c16 cur by (auto simp add: b1)
  have sz1: "g_userdata_size ?s1 \<noteq> 0"
    using pc1 by (auto simp add: pool_chain_def)
  have ids1: "ids_of (blk ?s1 cur 5) (blk ?s1 cur 6) (blk ?s1 cur 7) = blk_ids s cur"
    using c16 by (simp add: b1 blk_ids_def)
  show "?s' = snd (vf_add_buff_adv_hist3 (blk_ids s cur) (vf_delete_block_buffer3 False ?s1))"
    if "blk s cur 3 = 1"
    using that z sz1 ids1
    by (simp add: vf_relay_adv_data3_send_blk Let_def cur1 vf_delete_block_buffer3_True)
  show "?s' = ?s1\<lparr>g_userdata_currpos :=
               (if cur = g_userdata_lastpos s then g_userdata_firstpos s
                else unat (blk s cur 1))\<rparr>" if "blk s cur 3 \<noteq> 1"
    using that z c16
    by (simp add: vf_relay_adv_data3_send_blk Let_def cur1 fr b1)
qed

text \<open>What a run of \<^verbatim>\<open>vf_relay_adv_data3\<close> on a valid block does to the blocks.\<close>

lemma vf_relay_adv_data3_send_pool:
  assumes pc: "pool_chain s (xs @ cur # ys)" and cur: "g_userdata_currpos s = cur"
  shows "\<And>q k. q < 16 \<Longrightarrow> k < 32 \<Longrightarrow> 3 \<le> k \<Longrightarrow>
           blk (vf_relay_adv_data3_send s) q k =
             (if q = cur \<and> k = 3 then blk s cur 3 - 1 else blk s q k)"
    and "pool_chain (vf_relay_adv_data3_send s)
           (if blk s cur 3 = 1 then xs @ ys else xs @ cur # ys)"
    and "relay_data (vf_relay_adv_data3_send s) = relay_data (vf_relay_adv_data3_copy s)"
    and "adv_data_buf (vf_relay_adv_data3_send s) = adv_data_buf (vf_relay_adv_data3_copy s)"
    and "adv_len (vf_relay_adv_data3_send s) = adv_len (vf_relay_adv_data3_copy s)"
    and "uart_relay (vf_relay_adv_data3_send s) = uart_relay (vf_relay_adv_data3_copy s)"
    and "org_adv_data_size (vf_relay_adv_data3_send s) = org_adv_data_size s"
    and "phone (vf_relay_adv_data3_send s) = phone s"
proof -
  let ?s1 = "vf_relay_adv_data3_copy s"
  let ?s' = "vf_relay_adv_data3_send s"
  from pc have len: "length (garr_userdata s) = 512"
    by (simp add: pool_chain_def)
  have c16: "cur < 16"
    by (rule pool_chain_lt [OF pc]) simp
  have cur16: "g_userdata_currpos s < 16"
    using c16 cur by simp
  note b1 = vf_relay_adv_data3_copy_blk [OF len cur16]
  note fr = vf_relay_adv_data3_copy_frame [of s]
  have pc1: "pool_chain ?s1 (xs @ cur # ys)"
    by (rule vf_relay_adv_data3_copy_chain [OF pc]) simp
  have cur1: "g_userdata_currpos ?s1 = cur"
    by (simp add: fr cur)
  note dl = vf_delete_block_buffer3_chain [OF pc1 cur1]
  note cs = vf_relay_adv_data3_send_cases [OF pc cur]
  have o1: "org_adv_data_size ?s1 = org_adv_data_size s" "phone ?s1 = phone s"
    by (simp_all add: vf_relay_adv_data3_copy_def Let_def)
  show "blk ?s' q k = (if q = cur \<and> k = 3 then blk s cur 3 - 1 else blk s q k)"
    if "q < 16" "k < 32" "3 \<le> k" for q k
  proof (cases "blk s cur 3 = 1")
    case True
    then show ?thesis
      using that cur by (simp add: cs(1) dl(3) b1)
  next
    case False
    then show ?thesis
      using that cur by (simp add: cs(2) blk_def b1 [unfolded blk_def])
  qed
  show "pool_chain ?s' (if blk s cur 3 = 1 then xs @ ys else xs @ cur # ys)"
  proof (cases "blk s cur 3 = 1")
    case True
    then show ?thesis
      using dl(1) by (simp add: cs(1))
  next
    case False
    from pc have la: "last (xs @ cur # ys) = g_userdata_lastpos s"
      and hd: "hd (xs @ cur # ys) = g_userdata_firstpos s"
      and lk: "linked (blk s) (xs @ cur # ys)"
      by (simp_all add: pool_chain_def)
    have "(if cur = g_userdata_lastpos s then g_userdata_firstpos s else unat (blk s cur 1))
            \<in> set (xs @ cur # ys)"
    proof (cases "cur = g_userdata_lastpos s")
      case True
      then show ?thesis
        using hd hd_in_set [of "xs @ cur # ys"] by simp
    next
      case nl: False
      with la have "ys \<noteq> []" by auto
      with lk have "unat (blk s cur 1) = hd ys"
        by (simp add: linked_append linked_Cons)
      with \<open>ys \<noteq> []\<close> nl show ?thesis by simp
    qed
    then have "pool_chain (?s1\<lparr>g_userdata_currpos :=
               (if cur = g_userdata_lastpos s then g_userdata_firstpos s
                else unat (blk s cur 1))\<rparr>) (xs @ cur # ys)"
      by (rule pool_chain_currpos [OF pc1])
    with False show ?thesis
      by (simp add: cs(2))
  qed
  show "relay_data ?s' = relay_data ?s1"
    by (cases "blk s cur 3 = 1")
      (simp_all add: cs vf_add_buff_adv_hist3_frame vf_delete_block_buffer3_False_adv)
  show "adv_data_buf ?s' = adv_data_buf ?s1"
    by (cases "blk s cur 3 = 1")
      (simp_all add: cs vf_add_buff_adv_hist3_frame vf_delete_block_buffer3_False_adv)
  show "adv_len ?s' = adv_len ?s1"
    by (cases "blk s cur 3 = 1")
      (simp_all add: cs vf_add_buff_adv_hist3_frame vf_delete_block_buffer3_False_adv)
  show "uart_relay ?s' = uart_relay ?s1"
    by (cases "blk s cur 3 = 1")
      (simp_all add: cs vf_add_buff_adv_hist3_frame vf_delete_block_buffer3_hist)
  show "org_adv_data_size ?s' = org_adv_data_size s"
    by (cases "blk s cur 3 = 1")
      (simp_all add: cs o1 vf_add_buff_adv_hist3_frame vf_delete_block_buffer3_False_adv)
  show "phone ?s' = phone s"
    by (cases "blk s cur 3 = 1")
      (simp_all add: cs o1 vf_add_buff_adv_hist3_frame vf_delete_block_buffer3_False_adv)
qed


lemma update5: "([a, b] @ xs)[5 := v] = [a, b] @ xs[3 := v]"
  by (simp add: numeral_eq_Suc)

lemma take2_update: "2 \<le> length xs \<Longrightarrow> take 2 (xs[0 := a, Suc 0 := b]) = [a, b]"
  by (cases xs; cases "tl xs") auto

lemma vf_relay_adv_data3_copy_payload:
  fixes s :: node_state
  defines "cur \<equiv> g_userdata_currpos s"
  defines "pl \<equiv> [blk s cur 4, 0xFF] @ (record_bytes s cur)[3 := record_bytes s cur ! 3 + 1]"
  assumes len: "length (garr_userdata s) = 512" and c16: "g_userdata_currpos s < 16"
    and rd: "length (relay_data s) = 32"
    and sz: "blk s cur 4 \<noteq> 0" "unat (blk s cur 4) \<le> 28"
    and fit: "org_adv_data_size s + unat (blk s cur 4) + 1 \<le> length (adv_data_buf s)"
    and l16: "length (adv_data_buf s) < 65536"
  shows "adv_data_buf (vf_relay_adv_data3_copy s) =
           take (org_adv_data_size s) (adv_data_buf s) @ pl @
           drop (org_adv_data_size s + length pl) (adv_data_buf s)"
    and "adv_len (vf_relay_adv_data3_copy s) = org_adv_data_size s + length pl"
    and "uart_relay (vf_relay_adv_data3_copy s) =
           uart_relay s @ [(cur, take (org_adv_data_size s) (adv_data_buf s) @ pl)]"
    and "length (relay_data (vf_relay_adv_data3_copy s)) = 32"
    and "length pl = unat (blk s cur 4) + 1"
proof -
  let ?g = "garr_userdata s" and ?b = "cur * MAX_USERDATA_BUFFER_BLOCKSIZE"
  let ?size = "blk s cur 4" and ?org = "org_adv_data_size s"
  define n where "n = unat ?size - 1"
  from sz have n: "unat ?size = n + 1" "n \<le> 27"
    by (simp_all add: n_def unat_gt_0 [symmetric] Suc_leI word_neq_0_conv)
  define data where "data = take n (drop (?b + 5) ?g)"
  have b: "?b + 5 + n \<le> 512"
    using c16 n by (simp add: cur_def MAX_USERDATA_BUFFER_BLOCKSIZE_def)
  have ldata: "length data = n"
    using b len by (simp add: data_def)
  have data: "data = record_bytes s cur"
  proof (rule nth_equalityI)
    show "length data = length (record_bytes s cur)"
      by (simp add: ldata record_bytes_def n_def)
    fix k assume "k < length data"
    then have k: "k < n" by (simp add: ldata)
    with b len have "data ! k = ?g ! (?b + 5 + k)"
      by (simp add: data_def)
    also have "\<dots> = blk s cur (5 + k)"
      by (simp add: blk_def add.assoc)
    finally show "data ! k = record_bytes s cur ! k"
      using k by (simp add: record_bytes_def n_def)
  qed
  define rd1 where "rd1 = (relay_data s)[0 := ?size, 1 := 0xFF]"
  define rd2 where "rd2 = memcpy rd1 2 data"
  define rd3 where "rd3 = rd2[5 := rd2 ! 5 + 1]"
  have l1: "length rd1 = 32"
    by (simp add: rd1_def rd)
  have t1: "take 2 rd1 = [?size, 0xFF]"
    using rd by (simp add: rd1_def take2_update)
  have rd2: "rd2 = [?size, 0xFF] @ data @ drop (2 + n) rd1"
    unfolding rd2_def using memcpy_append [of 2 data rd1] n l1 by (simp add: ldata t1)
  have l2: "length rd2 = 32"
    by (simp add: rd2_def l1)
  have tk2: "take (n + 2) rd2 = [?size, 0xFF] @ data"
    by (simp add: rd2 ldata)
  have at5: "data[3 := rd2 ! 5 + 1] = data[3 := data ! 3 + 1]"
  proof (cases "3 < n")
    case True
    then have "rd2 ! 5 = data ! 3"
      by (simp add: rd2 ldata nth_append)
    then show ?thesis by simp
  next
    case False
    then have "length data \<le> 3"
      by (simp add: ldata)
    then show ?thesis
      by (simp only: list_update_beyond)
  qed
  have "take (n + 2) rd3 = (take (n + 2) rd2)[5 := rd2 ! 5 + 1]"
    by (simp add: rd3_def take_update_swap)
  also have "\<dots> = [?size, 0xFF] @ data[3 := rd2 ! 5 + 1]"
    by (simp only: tk2 update5)
  finally have "take (n + 2) rd3 = [?size, 0xFF] @ data[3 := data ! 3 + 1]"
    by (simp only: at5)
  moreover have "unat ?size + 1 = n + 2"
    using n by simp
  ultimately have tk3: "take (unat ?size + 1) rd3 = pl"
    by (simp only: pl_def data)
  from tk3 have tk3s: "take (Suc (unat ?size)) rd3 = pl"
    by simp
  have lpl: "length pl = n + 2"
    by (simp add: pl_def data [symmetric] ldata)
  have cp: "vf_relay_adv_data3_copy s =
      s\<lparr>garr_userdata := ?g[?b + 3 := ?g ! (?b + 3) - 1],
        relay_data := rd3,
        adv_data_buf := memcpy (adv_data_buf s) ?org (take (unat ?size + 1) rd3),
        adv_len := (?org + unat ?size + 1) mod 65536,
        uart_relay := uart_relay s @
          [(cur, take ((?org + unat ?size + 1) mod 65536)
                   (memcpy (adv_data_buf s) ?org (take (unat ?size + 1) rd3)))]\<rparr>"
    by (simp add: vf_relay_adv_data3_copy_def Let_def rd3_def rd2_def rd1_def data_def n_def
        blk_def cur_def)
  have fit': "?org + length pl \<le> length (adv_data_buf s)"
    using fit by (simp add: lpl n)
  have buf: "memcpy (adv_data_buf s) ?org pl =
      take ?org (adv_data_buf s) @ pl @ drop (?org + length pl) (adv_data_buf s)"
    by (rule memcpy_append [OF fit'])
  have lenv: "(?org + unat ?size + 1) mod 65536 = ?org + length pl"
    using fit' l16 by (simp add: lpl n)
  then have lenvs: "Suc (?org + unat ?size) mod 65536 = ?org + length pl"
    by simp
  show "adv_data_buf (vf_relay_adv_data3_copy s) =
           take ?org (adv_data_buf s) @ pl @ drop (?org + length pl) (adv_data_buf s)"
    by (simp add: cp tk3s buf)
  show "adv_len (vf_relay_adv_data3_copy s) = ?org + length pl"
    by (simp add: cp lenvs)
  have "take (?org + length pl) (memcpy (adv_data_buf s) ?org pl) = take ?org (adv_data_buf s) @ pl"
    using fit' by (simp add: buf)
  then show "uart_relay (vf_relay_adv_data3_copy s) =
           uart_relay s @ [(cur, take ?org (adv_data_buf s) @ pl)]"
    by (simp add: cp tk3s lenvs)
  show "length (relay_data (vf_relay_adv_data3_copy s)) = 32"
    by (simp add: cp rd3_def l2)
  show "length pl = unat ?size + 1"
    by (simp add: lpl n)
qed


lemma adv_okD:
  "adv_ok s \<Longrightarrow> p < 16 \<Longrightarrow> used s p \<Longrightarrow>
   unat (blk s p 4) \<le> 28 \<and> org_adv_data_size s + unat (blk s p 4) + 1 \<le> 31"
  by (simp add: adv_ok_def list_all_iff)


text \<open>One run of \<^verbatim>\<open>vf_relay_adv_data3\<close> on a well-formed buffer without invalid blocks.\<close>

lemma vf_relay_adv_data3_valid:
  assumes pc: "pool_chain s c" and ne: "c \<noteq> []"
    and sz: "blk s (g_userdata_currpos s) 4 \<noteq> 0"
  shows "vf_relay_adv_data3 s = vf_relay_adv_data3_send s"
    and "\<exists>xs ys. c = xs @ g_userdata_currpos s # ys \<and>
           pool_chain (vf_relay_adv_data3 s)
             (if blk s (g_userdata_currpos s) 3 = 1 then xs @ ys else c)"
    and "\<And>q k. q < 16 \<Longrightarrow> k < 32 \<Longrightarrow> 3 \<le> k \<Longrightarrow>
           blk (vf_relay_adv_data3 s) q k =
             (if q = g_userdata_currpos s \<and> k = 3 then blk s q 3 - 1 else blk s q k)"
    and "\<And>q. q < 16 \<Longrightarrow> used (vf_relay_adv_data3 s) q \<Longrightarrow> used s q"
proof -
  let ?cur = "g_userdata_currpos s"
  from pc ne have curc: "?cur \<in> set c" and lc: "length c = g_userdata_size s"
    by (simp_all add: pool_chain_def)
  from ne have "0 < length c"
    by simp
  with lc have n: "0 < g_userdata_size s"
    by simp
  show tick: "vf_relay_adv_data3 s = vf_relay_adv_data3_send s"
    by (rule vf_relay_adv_data3_tick [OF n sz])
  from curc obtain xs ys where c: "c = xs @ ?cur # ys"
    using split_list by fastforce
  note sp = vf_relay_adv_data3_send_pool [OF pc [unfolded c] refl]
  from sp(2) have pcn: "pool_chain (vf_relay_adv_data3 s) (if blk s ?cur 3 = 1 then xs @ ys else c)"
    by (cases "blk s ?cur 3 = 1") (simp_all add: tick c [symmetric])
  with c show "\<exists>xs ys. c = xs @ ?cur # ys \<and>
           pool_chain (vf_relay_adv_data3 s) (if blk s ?cur 3 = 1 then xs @ ys else c)"
    by blast
  show "blk (vf_relay_adv_data3 s) q k =
          (if q = ?cur \<and> k = 3 then blk s q 3 - 1 else blk s q k)"
    if "q < 16" "k < 32" "3 \<le> k" for q k
    using sp(1) [OF that] by (auto simp add: tick)
  show "used s q" if "q < 16" "used (vf_relay_adv_data3 s) q" for q
  proof -
    from that pool_chain_used [OF pcn that(1)]
    have "q \<in> set (if blk s ?cur 3 = 1 then xs @ ys else c)"
      by simp
    then have "q \<in> set c"
      by (auto simp add: c split: if_splits)
    with pool_chain_used [OF pc that(1)] show ?thesis
      by simp
  qed
qed


subsection \<open>The first packet after the start\<close>

lemma vf_add_packet_to_buffer3_adv:
  "relay_data (snd (vf_add_packet_to_buffer3 d s)) = relay_data s"
  "adv_data_buf (snd (vf_add_packet_to_buffer3 d s)) = adv_data_buf s"
  "org_adv_data_size (snd (vf_add_packet_to_buffer3 d s)) = org_adv_data_size s"
  "adv_len (snd (vf_add_packet_to_buffer3 d s)) = adv_len s"
  by (simp_all add: vf_add_packet_to_buffer3_def Let_def split: option.split)

lemma record_bytes_stored:
  assumes pc: "pool_chain s c" and f: "free_slot s = Some pos" and dl: "length d \<le> 27"
  shows "record_bytes (snd (vf_add_packet_to_buffer3 d s)) pos = d"
proof -
  let ?s' = "snd (vf_add_packet_to_buffer3 d s)"
  from free_slot_Some [OF f] have p: "pos < 16"
    by simp
  note st = vf_add_packet_to_buffer3_stored(3) [OF pc f dl p]
  have "blk ?s' pos 4 = of_nat (length d + 1)"
    by (simp add: st)
  moreover have "unat (of_nat (length d + 1) :: byte) = length d + 1"
    using dl by (intro unat_byte_of_nat) simp
  ultimately have n: "unat (blk ?s' pos 4) - Suc 0 = length d"
    by simp
  show ?thesis
  proof (rule nth_equalityI)
    show "length (record_bytes ?s' pos) = length d"
      by (simp add: record_bytes_def n)
    fix k assume "k < length (record_bytes ?s' pos)"
    then have k: "k < length d"
      by (simp add: record_bytes_def n)
    with dl have "blk ?s' pos (5 + k) = d ! k"
      by (simp add: st)
    with k show "record_bytes ?s' pos ! k = d ! k"
      by (simp add: record_bytes_def n)
  qed
qed

lemma blocks_ok_stored:
  assumes pc: "pool_chain s c" and f: "free_slot s = Some pos" and dl: "length d \<le> 27"
    and bo: "blocks_ok s"
  shows "blocks_ok (snd (vf_add_packet_to_buffer3 d s))"
proof (rule blocks_okI)
  let ?s' = "snd (vf_add_packet_to_buffer3 d s)"
  fix q assume q: "q < 16" and u: "used ?s' q"
  note st = vf_add_packet_to_buffer3_stored [OF pc f dl]
  have nz: "(of_nat (length d + 1) :: byte) \<noteq> 0"
    using dl by (intro byte_of_nat_neq_0) simp_all
  show "blk ?s' q 4 \<noteq> 0 \<and> blk ?s' q 3 \<noteq> 0"
  proof (cases "q = pos")
    case True
    with q nz show ?thesis
      by (simp add: st(3))
  next
    case False
    with u pool_chain_used [OF st(2) q] have "q \<in> set c"
      by simp
    with pool_chain_used [OF pc q] have "used s q"
      by simp
    with blocks_okD [OF bo q] False q show ?thesis
      by (simp add: st(3))
  qed
qed

lemma adv_ok_stored:
  assumes pc: "pool_chain s c" and f: "free_slot s = Some pos" and dl: "length d \<le> 27"
    and ok: "adv_ok s" and fit: "org_adv_data_size s + length d + 2 \<le> 31"
  shows "adv_ok (snd (vf_add_packet_to_buffer3 d s))"
proof -
  let ?s' = "snd (vf_add_packet_to_buffer3 d s)"
  note st = vf_add_packet_to_buffer3_stored [OF pc f dl]
  have sz: "unat (of_nat (length d + 1) :: byte) = length d + 1"
    using dl by (intro unat_byte_of_nat) simp
  have "unat (blk ?s' q 4) \<le> 28 \<and> org_adv_data_size s + unat (blk ?s' q 4) + 1 \<le> 31"
    if q: "q < 16" and u: "used ?s' q" for q
  proof (cases "q = pos")
    case True
    with q dl fit sz show ?thesis
      by (simp add: st(3))
  next
    case False
    with u pool_chain_used [OF st(2) q] have "q \<in> set c"
      by simp
    with pool_chain_used [OF pc q] have "used s q"
      by simp
    with adv_okD [OF ok q] False q show ?thesis
      by (simp add: st(3))
  qed
  then show ?thesis
    using ok by (simp add: adv_ok_def list_all_iff vf_add_packet_to_buffer3_adv)
qed

lemma blocks_ok_boot: "blocks_ok (boot enc)"
  by (simp add: blocks_ok_def boot_def used_def blk_def list_all_iff
      MAX_USERDATA_BUFFER_BLOCKSIZE_def)

lemma adv_ok_boot: "length enc \<le> 31 \<Longrightarrow> adv_ok (boot enc)"
  by (simp add: adv_ok_def boot_def used_def blk_def list_all_iff
      MAX_USERDATA_BUFFER_BLOCKSIZE_def)

text \<open>The state after the first packet has been added to the empty buffer.\<close>

lemma first_packet:
  assumes dl: "length d \<le> 27" and enc: "length enc + length d + 2 \<le> 31"
  defines "s1 \<equiv> snd (vf_add_packet_to_buffer3 d (boot enc))"
  shows "fst (vf_add_packet_to_buffer3 d (boot enc)) = 0"
    and "pool_chain s1 [0]" and "pool_wf s1" and "chain s1 = [0]"
    and "g_userdata_currpos s1 = 0"
    and "blocks_ok s1" and "adv_ok s1" and "hist_wf s1"
    and "blk s1 0 3 = 2" and "blk s1 0 4 = of_nat (length d + 1)"
    and "record_bytes s1 0 = d"
    and "uart_relay s1 = []" and "org_adv_data_size s1 = length enc"
    and "adv_data_buf s1 = enc @ replicate (31 - length enc) 0"
    and "relay_data s1 = replicate 32 0"
proof -
  note pc = pool_chain_boot [of enc]
  note f = pool_chain_Nil_free [OF pc]
  note st = vf_add_packet_to_buffer3_stored [OF pc f dl]
  show "fst (vf_add_packet_to_buffer3 d (boot enc)) = 0"
    by (rule st(1))
  from st(2) show pc1: "pool_chain s1 [0]"
    by (simp add: s1_def)
  then show "pool_wf s1"
    by (rule pool_wfI)
  from pc1 show "chain s1 = [0]"
    by (rule pool_chain_chain)
  from pc1 show "g_userdata_currpos s1 = 0"
    by (simp add: pool_chain_def)
  show "blocks_ok s1"
    unfolding s1_def by (rule blocks_ok_stored [OF pc f dl blocks_ok_boot])
  have "length enc \<le> 31"
    using enc by simp
  from adv_ok_boot [OF this] show "adv_ok s1"
    unfolding s1_def using enc by (intro adv_ok_stored [OF pc f dl]) (simp_all add: boot_def)
  show "hist_wf s1"
    by (simp add: s1_def hist_wf_boot)
  show "blk s1 0 3 = 2" "blk s1 0 4 = of_nat (length d + 1)"
    by (simp_all add: s1_def st(3))
  show "record_bytes s1 0 = d"
    unfolding s1_def by (rule record_bytes_stored [OF pc f dl])
  show "uart_relay s1 = []" "org_adv_data_size s1 = length enc"
    "adv_data_buf s1 = enc @ replicate (31 - length enc) 0"
    "relay_data s1 = replicate 32 0"
    by (simp_all add: s1_def vf_add_packet_to_buffer3_frame vf_add_packet_to_buffer3_adv boot_def)
qed

subsection \<open>The request queue\<close>

lemma unat_and_mask7: "unat ((w :: 32 word) AND TX_BUFFER_MASK) = unat w mod 8"
proof -
  have "(7 :: 32 word) = mask 3"
    by (simp add: mask_eq_exp_minus_1)
  then have "w AND TX_BUFFER_MASK = take_bit 3 w"
    by (simp add: TX_BUFFER_MASK_def take_bit_eq_mask)
  then show ?thesis
    by (simp add: take_bit_eq_mod unat_mod)
qed

lemma unat_inc_mask7:
  "unat (w :: 32 word) < 8 \<Longrightarrow> unat ((w + 1) AND TX_BUFFER_MASK) = (unat w + 1) mod 8"
  by (simp add: unat_and_mask7 unat_word_ariths)



lemma ring_dist:
  "i < 8 \<Longrightarrow> t < 8 \<Longrightarrow> (i + 8 - t) mod 8 = (if t \<le> i then i - t else i + 8 - t)" for i t :: nat
  by (simp add: mod_if le_mod_geq)

lemma ring_succ:
  "i < 8 \<Longrightarrow> (Suc i) mod 8 = (if i = 7 then 0 else Suc i)" for i :: nat
  by (simp add: mod_if)


lemma ring_cnt:
  "i < 8 \<Longrightarrow> t < 8 \<Longrightarrow> (i + 8 - t) mod 8 < 7 \<Longrightarrow>
   ((i + 1) mod 8 + 8 - t) mod 8 = Suc ((i + 8 - t) mod 8)" for i t :: nat
  by (auto simp add: ring_dist ring_succ split: if_splits)
lemma ring_pred:
  "i < 8 \<Longrightarrow> t < 8 \<Longrightarrow> t \<noteq> i \<Longrightarrow>
   (i + 8 - (t + 1) mod 8) mod 8 = (i + 8 - t) mod 8 - 1" for i t :: nat
  by (auto simp add: ring_dist ring_succ split: if_splits)

lemma ring_at:
  "i < 8 \<Longrightarrow> t < 8 \<Longrightarrow> (t + (i + 8 - t) mod 8) mod 8 = i" for i t :: nat
  by (auto simp add: ring_dist)
lemma ring_other:
  "i < 8 \<Longrightarrow> t < 8 \<Longrightarrow> k < (i + 8 - t) mod 8 \<Longrightarrow> (t + k) mod 8 \<noteq> i" for i t k :: nat
proof (cases "t + k < 8")
  case True
  assume "i < 8" "t < 8" "k < (i + 8 - t) mod 8"
  with True show ?thesis
    by (auto simp add: ring_dist split: if_splits)
next
  case False
  assume a: "i < 8" "t < 8" "k < (i + 8 - t) mod 8"
  with False have "t + k - 8 < 8" "t + k - 8 \<noteq> i"
    by (auto simp add: ring_dist split: if_splits)
  moreover from False have "(t + k) mod 8 = (t + k - 8) mod 8"
    by (simp add: le_mod_geq)
  ultimately show ?thesis
    by simp
qed

lemma ring_pos:
  "i < 8 \<Longrightarrow> t < 8 \<Longrightarrow> t \<noteq> i \<Longrightarrow> 0 < (i + 8 - t) mod 8" for i t :: nat
  by (simp add: ring_dist)
lemma ring_zero:
  "i < 8 \<Longrightarrow> t < 8 \<Longrightarrow> (i + 8 - t) mod 8 = 0 \<longleftrightarrow> t = i" for i t :: nat
  by (auto simp add: ring_dist)

lemma ring_shift: "((t + 1) mod 8 + k) mod 8 = (t + Suc k) mod 8" for t k :: nat
  by (simp add: mod_add_left_eq)

lemma tx_pending_length: "length (tx_pending s) \<le> 7"
proof -
  have "(unat (m_tx_insert_index s) + 8 - unat (m_tx_index s)) mod 8 < 8"
    by simp
  then show ?thesis
    by (simp add: tx_pending_def)
qed

lemma tx_pending_Nil:
  "tx_ok s \<Longrightarrow> tx_pending s = [] \<longleftrightarrow> m_tx_index s = m_tx_insert_index s"
  by (simp add: tx_pending_def tx_ok_def ring_zero word_unat_eq_iff)

lemma tx_pending_store:
  assumes ok: "tx_ok s" and room: "length (tx_pending s) < 7"
  shows "tx_pending (s\<lparr>m_tx_buffer := (m_tx_buffer s)[unat (m_tx_insert_index s) := msg],
            m_tx_insert_index := (m_tx_insert_index s + 1) AND TX_BUFFER_MASK\<rparr>)
         = tx_pending s @ [msg]"
proof -
  let ?i = "unat (m_tx_insert_index s)" and ?t = "unat (m_tx_index s)"
  let ?n = "(?i + 8 - ?t) mod 8"
  from ok have b: "?i < 8" "?t < 8" and len: "length (m_tx_buffer s) = 8"
    by (simp_all add: tx_ok_def)
  from room have n: "?n < 7"
    by (simp add: tx_pending_def)
  have cnt: "(unat ((m_tx_insert_index s + 1) AND TX_BUFFER_MASK) + 8 - ?t) mod 8 = Suc ?n"
    using ring_cnt [OF b n] b by (simp add: unat_inc_mask7)
  have "map (\<lambda>k. (m_tx_buffer s)[?i := msg] ! ((?t + k) mod 8)) [0..<?n]
        = map (\<lambda>k. m_tx_buffer s ! ((?t + k) mod 8)) [0..<?n]"
    by (rule map_cong) (simp_all add: ring_other [OF b, THEN not_sym])
  moreover have "(m_tx_buffer s)[?i := msg] ! ((?t + ?n) mod 8) = msg"
    using b len by (simp add: ring_at)
  ultimately show ?thesis
    by (simp add: tx_pending_def cnt)
qed

lemma tx_ok_store:
  "tx_ok s \<Longrightarrow> length (gattc_value msg) = 8 \<Longrightarrow>
   tx_ok (s\<lparr>m_tx_buffer := (m_tx_buffer s)[i := msg],
            m_tx_insert_index := (m_tx_insert_index s + 1) AND TX_BUFFER_MASK\<rparr>)"
  by (auto simp add: tx_ok_def unat_and_mask7 list_all_iff TUIS_WRITE_MESSAGE_LENGTH_def
      dest: set_update_subset_insert [THEN subsetD])

lemma tx_ok_process: "tx_ok s \<Longrightarrow> tx_ok (tx_buffer_process r s)"
  by (simp add: tx_buffer_process_def tx_ok_def unat_and_mask7)

lemma tx_pending_hd:
  assumes ok: "tx_ok s" and ne: "m_tx_index s \<noteq> m_tx_insert_index s"
  shows "tx_pending s = m_tx_buffer s ! unat (m_tx_index s) # drop 1 (tx_pending s)"
proof -
  let ?i = "unat (m_tx_insert_index s)" and ?t = "unat (m_tx_index s)"
  let ?n = "(?i + 8 - ?t) mod 8"
  from ok have b: "?i < 8" "?t < 8"
    by (simp_all add: tx_ok_def)
  from ne have ne': "?t \<noteq> ?i"
    by (simp add: word_unat_eq_iff)
  have pos: "0 < ?n"
    by (rule ring_pos [OF b ne'])
  then have "[0..<?n] = 0 # [1..<?n]"
    by (simp add: upt_conv_Cons)
  then show ?thesis
    using b by (simp add: tx_pending_def drop_map)
qed

lemma tx_pending_advance:
  assumes ok: "tx_ok s" and ne: "m_tx_index s \<noteq> m_tx_insert_index s"
  shows "tx_pending (s\<lparr>gattc_sent := x, m_tx_index := (m_tx_index s + 1) AND TX_BUFFER_MASK\<rparr>)
           = drop 1 (tx_pending s)"
proof -
  let ?i = "unat (m_tx_insert_index s)" and ?t = "unat (m_tx_index s)"
  let ?n = "(?i + 8 - ?t) mod 8"
  from ok have b: "?i < 8" "?t < 8"
    by (simp_all add: tx_ok_def)
  from ne have ne': "?t \<noteq> ?i"
    by (simp add: word_unat_eq_iff)
  have pos: "0 < ?n"
    by (rule ring_pos [OF b ne'])
  have cnt: "(?i + 8 - (?t + 1) mod 8) mod 8 = ?n - 1"
    by (rule ring_pred [OF b ne'])
  have "[Suc 0..<?n] = map Suc [0..<?n - 1]"
    using pos by (simp add: map_Suc_upt)
  then have "drop 1 (tx_pending s) =
      map (\<lambda>k. m_tx_buffer s ! ((?t + Suc k) mod 8)) [0..<?n - 1]"
    by (simp add: tx_pending_def drop_map comp_def)
  moreover have "tx_pending (s\<lparr>gattc_sent := x, m_tx_index := (m_tx_index s + 1) AND TX_BUFFER_MASK\<rparr>)
      = map (\<lambda>k. m_tx_buffer s ! (((?t + 1) mod 8 + k) mod 8)) [0..<?n - 1]"
    using b cnt by (simp add: tx_pending_def unat_inc_mask7)
  ultimately show ?thesis
    by (simp only: ring_shift)
qed

lemma tx_pending_process:
  assumes ok: "tx_ok s"
  shows "gattc_sent (tx_buffer_process r s) @ tx_pending (tx_buffer_process r s)
           = gattc_sent s @ tx_pending s"
proof (cases "r \<and> m_tx_index s \<noteq> m_tx_insert_index s")
  case True
  then show ?thesis
    using tx_pending_advance [OF ok, of "gattc_sent s @ [m_tx_buffer s ! unat (m_tx_index s)]"]
      tx_pending_hd [OF ok]
    by (simp add: tx_buffer_process_def)
next
  case False
  then show ?thesis
    by (auto simp add: tx_buffer_process_def)
qed

lemma tx_sent_process:
  "tx_ok s \<Longrightarrow>
   gattc_sent (tx_buffer_process r s) =
     gattc_sent s @ (if r then take 1 (tx_pending s) else [])"
proof (cases "m_tx_index s \<noteq> m_tx_insert_index s")
  case True
  assume ok: "tx_ok s"
  from tx_pending_hd [OF ok True]
  have "take 1 (tx_pending s) = [m_tx_buffer s ! unat (m_tx_index s)]"
    by (metis One_nat_def take0 take_Suc_Cons)
  then show ?thesis using True
    by (simp add: tx_buffer_process_def)
next
  case False
  assume ok: "tx_ok s"
  with False have "tx_pending s = []"
    by (simp add: tx_pending_Nil)
  then show ?thesis using False
    by (simp add: tx_buffer_process_def)
qed


lemma ring_full:
  "i < 8 \<Longrightarrow> t < 8 \<Longrightarrow> (i + 8 - t) mod 8 = 7 \<Longrightarrow> (i + 1) mod 8 = t" for i t :: nat
  by (auto simp add: ring_dist ring_succ split: if_splits)

lemma tx_store_room:
  assumes ok: "tx_ok s" and room: "length (tx_pending s) < 7"
    and len: "length (gattc_value msg) = 8"
  shows "gattc_sent (tx_buffer_process r (tx_store msg s)) @
           tx_pending (tx_buffer_process r (tx_store msg s))
         = gattc_sent s @ tx_pending s @ [msg]"
    and "gattc_sent (tx_buffer_process r (tx_store msg s)) =
           gattc_sent s @ (if r then take 1 (tx_pending s @ [msg]) else [])"
proof -
  have ok': "tx_ok (tx_store msg s)"
    unfolding tx_store_def by (rule tx_ok_store [OF ok len])
  have p: "tx_pending (tx_store msg s) = tx_pending s @ [msg]"
    unfolding tx_store_def by (rule tx_pending_store [OF ok room])
  have g: "gattc_sent (tx_store msg s) = gattc_sent s"
    by (simp add: tx_store_def)
  show "gattc_sent (tx_buffer_process r (tx_store msg s)) @
           tx_pending (tx_buffer_process r (tx_store msg s))
         = gattc_sent s @ tx_pending s @ [msg]"
    by (simp add: tx_pending_process [OF ok'] p g)
  show "gattc_sent (tx_buffer_process r (tx_store msg s)) =
           gattc_sent s @ (if r then take 1 (tx_pending s @ [msg]) else [])"
    by (simp only: tx_sent_process [OF ok'] p g)
qed

lemma tx_store_full:
  assumes ok: "tx_ok s" and full: "length (tx_pending s) = 7"
    and len: "length (gattc_value msg) = 8"
  shows "tx_pending (tx_buffer_process r (tx_store msg s)) = []"
    and "gattc_sent (tx_buffer_process r (tx_store msg s)) = gattc_sent s"
proof -
  let ?i = "unat (m_tx_insert_index s)" and ?t = "unat (m_tx_index s)"
  from ok have b: "?i < 8" "?t < 8"
    by (simp_all add: tx_ok_def)
  from full have "(?i + 8 - ?t) mod 8 = 7"
    by (simp add: tx_pending_def)
  then have "(?i + 1) mod 8 = ?t"
    by (rule ring_full [OF b])
  then have "unat ((m_tx_insert_index s + 1) AND TX_BUFFER_MASK) = unat (m_tx_index s)"
    using b by (simp add: unat_inc_mask7)
  then have meet: "m_tx_index (tx_store msg s) = m_tx_insert_index (tx_store msg s)"
    by (simp add: tx_store_def word_unat_eq_iff)
  then have same: "tx_buffer_process r (tx_store msg s) = tx_store msg s"
    by (simp add: tx_buffer_process_def)
  have ok': "tx_ok (tx_store msg s)"
    unfolding tx_store_def by (rule tx_ok_store [OF ok len])
  show "tx_pending (tx_buffer_process r (tx_store msg s)) = []"
    using meet by (simp add: same tx_pending_Nil [OF ok'])
  show "gattc_sent (tx_buffer_process r (tx_store msg s)) = gattc_sent s"
    by (simp only: same) (simp add: tx_store_def)
qed

text \<open>The slot a request is written to, and what the SoftDevice will read there.\<close>

lemma tx_buffer_process_slot:
  "m_tx_buffer (tx_buffer_process r s) = m_tx_buffer s \<and>
   m_tx_insert_index (tx_buffer_process r s) = m_tx_insert_index s"
  by (simp add: tx_buffer_process_def)

lemma tx_store_slot:
  assumes ok: "tx_ok s"
  shows "m_tx_buffer (tx_buffer_process r (tx_store msg s)) ! unat (m_tx_insert_index s) = msg"
    and "unat (m_tx_insert_index (tx_buffer_process r (tx_store msg s))) =
           (unat (m_tx_insert_index s) + 1) mod 8"
  using ok by (simp_all add: tx_buffer_process_slot tx_store_def tx_ok_def unat_inc_mask7)

lemma tx_ok_slot:
  "tx_ok s \<Longrightarrow> length (gattc_value (m_tx_buffer s ! unat (m_tx_insert_index s))) = 8"
  by (simp add: tx_ok_def list_all_length TUIS_WRITE_MESSAGE_LENGTH_def)

lemma memcpy_take:
  "length xs \<le> length dst \<Longrightarrow> take (length xs) (memcpy dst 0 xs) = xs"
proof -
  have "length xs + at \<le> length dst \<Longrightarrow>
        take (length xs) (drop at (memcpy dst at xs)) = xs" for at
  proof (induction xs arbitrary: dst at)
    case Nil
    show ?case by simp
  next
    case (Cons x xs)
    have len: "length (memcpy (dst[at := x]) (Suc at) xs) = length dst"
      by (induction xs arbitrary: dst at) simp_all
    have keep: "i < at' \<Longrightarrow> memcpy d at' ys ! i = d ! i" for i at' ys and d :: "'a list"
      by (induction ys arbitrary: d at') simp_all
    from Cons.prems have at: "at < length dst"
      by simp
    have "drop at (memcpy (dst[at := x]) (Suc at) xs)
          = memcpy (dst[at := x]) (Suc at) xs ! at # drop (Suc at) (memcpy (dst[at := x]) (Suc at) xs)"
      using at len by (simp add: Cons_nth_drop_Suc)
    moreover have "memcpy (dst[at := x]) (Suc at) xs ! at = x"
      using at by (simp add: keep)
    moreover have "take (length xs) (drop (Suc at) (memcpy (dst[at := x]) (Suc at) xs)) = xs"
      using Cons.IH [of "Suc at" "dst[at := x]"] Cons.prems by simp
    ultimately show ?case
      by simp
  qed
  from this [of 0] show "length xs \<le> length dst \<Longrightarrow> take (length xs) (memcpy dst 0 xs) = xs"
    by simp
qed

lemma cccd_configure_store:
  assumes ok: "tx_ok s"
  shows "\<exists>msg. snd (cccd_configure ch h en r s) = tx_buffer_process r (tx_store msg s) \<and>
           length (gattc_value msg) = 8 \<and>
           Some (tx_request msg) = request_of (Cccd_configure ch h en r)"
proof -
  let ?p = "m_tx_buffer s ! unat (m_tx_insert_index s)"
  let ?v = "(if en then BLE_GATT_HVX_NOTIFICATION else 0) :: 16 word"
  let ?m = "?p\<lparr>gattc_handle := h, gattc_len := 2, gattc_offset := 0,
              gattc_write_op := BLE_GATT_OP_WRITE_REQ,
              gattc_value := (gattc_value ?p)[0 := ucast ?v, 1 := ucast (drop_bit 8 ?v)],
              conn_handle := ch, req_type := WRITE_REQ\<rparr>"
  have a: "snd (cccd_configure ch h en r s) = tx_buffer_process r (tx_store ?m s)"
    by (simp add: cccd_configure_def tx_store_def Let_def)
  have l: "length (gattc_value ?p) = 8"
    by (rule tx_ok_slot [OF ok])
  then obtain a0 a1 rest where v: "gattc_value ?p = a0 # a1 # rest"
    by (cases "gattc_value ?p"; cases "tl (gattc_value ?p)") auto
  have b: "length (gattc_value ?m) = 8"
    using l by simp
  have c: "Some (tx_request ?m) = request_of (Cccd_configure ch h en r)"
    by (simp add: tx_request_def request_of_def v BLE_GATT_HVX_NOTIFICATION_def)
  from a b c show ?thesis
    by blast
qed

lemma led_status_send_store:
  assumes ok: "tx_ok s" and conn: "peer_conn_handle p \<noteq> BLE_CONN_HANDLE_INVALID"
    and len: "unat len \<le> 8" "unat len \<le> length st"
  shows "\<exists>msg. ble_thingy_uis_led_status_send p st len r s =
             Some (NRF_SUCCESS, tx_buffer_process r (tx_store msg s)) \<and>
           length (gattc_value msg) = 8 \<and>
           Some (tx_request msg) = request_of (Led_status_send p st len r)"
proof -
  let ?p = "m_tx_buffer s ! unat (m_tx_insert_index s)"
  let ?m = "?p\<lparr>gattc_handle := led_handle p, gattc_len := len, gattc_offset := 0,
              gattc_write_op := BLE_GATT_OP_WRITE_REQ,
              gattc_value := memcpy (gattc_value ?p) 0 (take (unat len) st),
              conn_handle := peer_conn_handle p, req_type := WRITE_REQ\<rparr>"
  have a: "ble_thingy_uis_led_status_send p st len r s =
             Some (NRF_SUCCESS, tx_buffer_process r (tx_store ?m s))"
    using conn len
    by (simp add: ble_thingy_uis_led_status_send_def tx_store_def Let_def
        TUIS_WRITE_MESSAGE_LENGTH_def)
  have l: "length (gattc_value ?p) = 8"
    by (rule tx_ok_slot [OF ok])
  have b: "length (gattc_value ?m) = 8"
    using l by (simp add: memcpy_length)
  have "take (length (take (unat len) st)) (memcpy (gattc_value ?p) 0 (take (unat len) st))
          = take (unat len) st"
    by (rule memcpy_take) (use l len in simp)
  then have "take (unat len) (memcpy (gattc_value ?p) 0 (take (unat len) st)) = take (unat len) st"
    using len by (simp add: min_absorb2)
  then have c: "Some (tx_request ?m) = request_of (Led_status_send p st len r)"
    using conn by (simp add: tx_request_def request_of_def)
  from a b c show ?thesis
    by blast
qed

text \<open>A call has no result exactly when its copy leaves an array.\<close>

lemma uis_step_None: "uis_step e s = None \<longleftrightarrow> overrun e"
  by (cases e)
    (auto simp add: uis_step_def overrun_def ble_thingy_uis_led_status_send_def Let_def)

text \<open>Every call that adds a request has the form of \<open>tx_store\<close>.\<close>

lemma uis_step_store:
  assumes ok: "tx_ok s" and req: "request_of e = Some m" and nov: "\<not> overrun e"
  shows "\<exists>msg r. uis_step e s = Some (tx_buffer_process r (tx_store msg s)) \<and>
           length (gattc_value msg) = 8 \<and> tx_request msg = m"
proof (cases e)
  case (Cccd_configure ch h en r)
  from cccd_configure_store [OF ok, of ch h en r] req show ?thesis
    by (auto simp add: Cccd_configure uis_step_def)
next
  case (Led_status_send p st len r)
  from req have conn: "peer_conn_handle p \<noteq> BLE_CONN_HANDLE_INVALID"
    by (auto simp add: Led_status_send request_of_def split: if_splits)
  with nov have len: "unat len \<le> 8" "unat len \<le> length st"
    by (simp_all add: Led_status_send overrun_def TUIS_WRITE_MESSAGE_LENGTH_def)
  from led_status_send_store [OF ok conn len, of r] req show ?thesis
    by (auto simp add: Led_status_send uis_step_def)
next
  case (Write_rsp p ch r)
  with req show ?thesis
    by (simp add: request_of_def)
qed

lemma uis_step_other:
  assumes req: "request_of e = None" and nov: "\<not> overrun e"
  shows "uis_step e s = Some s \<or> (\<exists>r. uis_step e s = Some (tx_buffer_process r s))"
proof (cases e)
  case (Cccd_configure ch h en r)
  with req show ?thesis
    by (simp add: request_of_def)
next
  case (Led_status_send p st len r)
  with req show ?thesis
    by (auto simp add: request_of_def uis_step_def ble_thingy_uis_led_status_send_def
        split: if_splits)
next
  case (Write_rsp p ch r)
  then show ?thesis
    by (auto simp add: uis_step_def on_write_rsp_def)
qed

lemma uis_step_fifo:
  assumes ok: "tx_ok s" and room: "request_of e = None \<or> length (tx_pending s) < 7"
    and nov: "\<not> overrun e"
  shows "\<exists>s1. uis_step e s = Some s1 \<and> tx_ok s1 \<and>
           prefix (gattc_sent s) (gattc_sent s1) \<and>
           (\<exists>ms. gattc_sent s1 @ tx_pending s1 = gattc_sent s @ tx_pending s @ ms \<and>
                 map tx_request ms = List.map_filter request_of [e])"
proof (cases "request_of e")
  case None
  have same: "tx_ok s \<and> prefix (gattc_sent s) (gattc_sent s) \<and>
      (\<exists>ms. gattc_sent s @ tx_pending s = gattc_sent s @ tx_pending s @ ms \<and>
            map tx_request ms = List.map_filter request_of [e])"
    using ok None by (simp add: List.map_filter_simps)
  have proc: "tx_ok (tx_buffer_process r s) \<and>
      prefix (gattc_sent s) (gattc_sent (tx_buffer_process r s)) \<and>
      (\<exists>ms. gattc_sent (tx_buffer_process r s) @ tx_pending (tx_buffer_process r s) =
              gattc_sent s @ tx_pending s @ ms \<and>
            map tx_request ms = List.map_filter request_of [e])" for r
    using None tx_ok_process [OF ok, of r] tx_pending_process [OF ok, of r]
      tx_sent_process [OF ok, of r]
    by (simp add: List.map_filter_simps)
  from uis_step_other [OF None nov, of s] same proc show ?thesis
    by auto
next
  case (Some m)
  with room have r7: "length (tx_pending s) < 7"
    by simp
  from uis_step_store [OF ok Some nov] obtain msg r where
    st: "uis_step e s = Some (tx_buffer_process r (tx_store msg s))"
    and len: "length (gattc_value msg) = 8" and rq: "tx_request msg = m"
    by blast
  have "tx_ok (tx_store msg s)"
    unfolding tx_store_def by (rule tx_ok_store [OF ok len])
  then have a: "tx_ok (tx_buffer_process r (tx_store msg s))"
    by (rule tx_ok_process)
  note e1 = tx_store_room(1) [OF ok r7 len, of r]
  note e2 = tx_store_room(2) [OF ok r7 len, of r]
  have b: "prefix (gattc_sent s) (gattc_sent (tx_buffer_process r (tx_store msg s)))"
    by (simp only: e2) simp
  have c: "map tx_request [msg] = List.map_filter request_of [e]"
    using Some rq by (simp add: List.map_filter_simps)
  from st a b e1 c show ?thesis
    by blast
qed

lemma uis_run_fifo:
  "tx_ok s \<Longrightarrow> tx_room es s \<Longrightarrow>
   \<exists>s1. uis_run es s = Some s1 \<and> tx_ok s1 \<and>
     prefix (gattc_sent s) (gattc_sent s1) \<and>
     (\<exists>ms. gattc_sent s1 @ tx_pending s1 = gattc_sent s @ tx_pending s @ ms \<and>
           map tx_request ms = List.map_filter request_of es)"
proof (induction es arbitrary: s)
  case Nil
  then show ?case by (simp add: List.map_filter_simps)
next
  case (Cons e es)
  from Cons.prems(2) have room: "request_of e = None \<or> length (tx_pending s) < 7"
    and some: "uis_step e s \<noteq> None"
    by (auto split: option.splits)
  from some have nov: "\<not> overrun e"
    by (simp add: uis_step_None)
  from uis_step_fifo [OF Cons.prems(1) room nov] obtain s1 ms1 where
    st: "uis_step e s = Some s1" and ok1: "tx_ok s1"
    and p1: "prefix (gattc_sent s) (gattc_sent s1)"
    and q1: "gattc_sent s1 @ tx_pending s1 = gattc_sent s @ tx_pending s @ ms1"
    and r1: "map tx_request ms1 = List.map_filter request_of [e]"
    by blast
  from Cons.prems(2) st have rest: "tx_room es s1"
    by simp
  from Cons.IH [OF ok1 rest] obtain s2 ms2 where
    run: "uis_run es s1 = Some s2" and ok2: "tx_ok s2"
    and p2: "prefix (gattc_sent s1) (gattc_sent s2)"
    and q2: "gattc_sent s2 @ tx_pending s2 = gattc_sent s1 @ tx_pending s1 @ ms2"
    and r2: "map tx_request ms2 = List.map_filter request_of es"
    by blast
  have a: "uis_run (e # es) s = Some s2"
    using st run by simp
  have b: "prefix (gattc_sent s) (gattc_sent s2)"
    using p1 p2 by (rule prefix_order.trans)
  have c: "gattc_sent s2 @ tx_pending s2 = gattc_sent s @ tx_pending s @ (ms1 @ ms2)"
    using q1 q2 by simp
  have "List.map_filter request_of (e # es) =
        List.map_filter request_of [e] @ List.map_filter request_of es"
    by (simp add: List.map_filter_simps split: option.split)
  then have d: "map tx_request (ms1 @ ms2) = List.map_filter request_of (e # es)"
    using r1 r2 by simp
  from a ok2 b c d show ?case
    by blast
qed

text \<open>
  C9, as the code has it. Adding a request never fails for want of room:
  \<^verbatim>\<open>cccd_configure\<close> always returns \<^verbatim>\<open>NRF_SUCCESS\<close>, and so does
  \<^verbatim>\<open>ble_thingy_uis_led_status_send\<close> on a valid connection when its copy stays inside
  the arrays (a call has no result exactly when it does not). The ring never shows more
  than 7 waiting requests. A call that adds a request writes it to the slot at the insert
  index (the SoftDevice will read there the connection, the handle, the length and the
  bytes that were asked for) and moves the insert index on by one modulo 8. Along every
  sequence of calls in which each request is added while fewer than 7 are waiting, the
  requests passed to the SoftDevice only grow at the end, and the requests passed followed
  by those still waiting grow at the end by exactly the requests of the calls, in the
  order of the calls: nothing waiting is overwritten, and requests are issued in the order
  they were added. A request added by either function while 7 are waiting makes the two
  indices meet, and the ring then shows no request at all.
\<close>

theorem tx_queue_fifo:
  "fst (cccd_configure ch h en r s) = NRF_SUCCESS \<and>
   (peer_conn_handle p \<noteq> BLE_CONN_HANDLE_INVALID \<and> \<not> overrun (Led_status_send p st len r) \<longrightarrow>
      map_option fst (ble_thingy_uis_led_status_send p st len r s) = Some NRF_SUCCESS) \<and>
   (uis_step e s = None \<longleftrightarrow> overrun e) \<and>
   length (tx_pending s) \<le> 7 \<and>
   (tx_ok s \<and> request_of e = Some m \<and> \<not> overrun e \<longrightarrow>
      (\<exists>s1. uis_step e s = Some s1 \<and>
         tx_request (m_tx_buffer s1 ! unat (m_tx_insert_index s)) = m \<and>
         unat (m_tx_insert_index s1) = (unat (m_tx_insert_index s) + 1) mod 8)) \<and>
   (tx_ok s \<and> tx_room es s \<longrightarrow>
      (\<exists>s1 ms. uis_run es s = Some s1 \<and> tx_ok s1 \<and>
         prefix (gattc_sent s) (gattc_sent s1) \<and>
         gattc_sent s1 @ tx_pending s1 = gattc_sent s @ tx_pending s @ ms \<and>
         map tx_request ms = List.map_filter request_of es)) \<and>
   (tx_ok s \<and> length (tx_pending s) = 7 \<and> request_of e = Some m \<and> \<not> overrun e \<longrightarrow>
      (\<exists>s1. uis_step e s = Some s1 \<and> tx_pending s1 = [] \<and> gattc_sent s1 = gattc_sent s))"
proof (intro conjI impI)
  show "fst (cccd_configure ch h en r s) = NRF_SUCCESS"
    by (simp add: cccd_configure_def Let_def)
  show "map_option fst (ble_thingy_uis_led_status_send p st len r s) = Some NRF_SUCCESS"
    if "peer_conn_handle p \<noteq> BLE_CONN_HANDLE_INVALID \<and> \<not> overrun (Led_status_send p st len r)"
    using that by (auto simp add: ble_thingy_uis_led_status_send_def overrun_def Let_def)
  show "uis_step e s = None \<longleftrightarrow> overrun e"
    by (rule uis_step_None)
  show "length (tx_pending s) \<le> 7"
    by (rule tx_pending_length)
next
  assume a: "tx_ok s \<and> request_of e = Some m \<and> \<not> overrun e"
  then have ok: "tx_ok s" and req: "request_of e = Some m" and nov: "\<not> overrun e"
    by simp_all
  from uis_step_store [OF ok req nov] obtain msg r' where
    st: "uis_step e s = Some (tx_buffer_process r' (tx_store msg s))"
    and rq: "tx_request msg = m"
    by blast
  from st rq tx_store_slot [OF ok, of r' msg]
  show "\<exists>s1. uis_step e s = Some s1 \<and>
         tx_request (m_tx_buffer s1 ! unat (m_tx_insert_index s)) = m \<and>
         unat (m_tx_insert_index s1) = (unat (m_tx_insert_index s) + 1) mod 8"
    by simp
next
  assume a: "tx_ok s \<and> tx_room es s"
  then have ok: "tx_ok s" and room: "tx_room es s"
    by simp_all
  from uis_run_fifo [OF ok room]
  show "\<exists>s1 ms. uis_run es s = Some s1 \<and> tx_ok s1 \<and>
         prefix (gattc_sent s) (gattc_sent s1) \<and>
         gattc_sent s1 @ tx_pending s1 = gattc_sent s @ tx_pending s @ ms \<and>
         map tx_request ms = List.map_filter request_of es"
    by blast
next
  assume a: "tx_ok s \<and> length (tx_pending s) = 7 \<and> request_of e = Some m \<and> \<not> overrun e"
  then have ok: "tx_ok s" and full: "length (tx_pending s) = 7"
    and req: "request_of e = Some m" and nov: "\<not> overrun e"
    by simp_all
  from uis_step_store [OF ok req nov] obtain msg r' where
    st: "uis_step e s = Some (tx_buffer_process r' (tx_store msg s))"
    and len: "length (gattc_value msg) = 8"
    by blast
  from st tx_store_full [OF ok full len, of r']
  show "\<exists>s1. uis_step e s = Some s1 \<and> tx_pending s1 = [] \<and> gattc_sent s1 = gattc_sent s"
    by simp
qed

theorem tx_queue_fifo_witness:
  "peer_conn_handle uis_client0 \<noteq> BLE_CONN_HANDLE_INVALID \<and>
   \<not> overrun (Led_status_send uis_client0 [1, 255, 0, 0] 4 True) \<and>
   map_option fst (ble_thingy_uis_led_status_send uis_client0 [1, 255, 0, 0] 4 True uis_boot) =
     Some NRF_SUCCESS \<and>
   tx_ok uis_boot \<and>
   request_of (Led_status_send uis_client0 [1, 255, 0, 0] 4 True) =
     Some \<lparr>conn_handle = 1, req_type = WRITE_REQ, gattc_handle = 7, gattc_len = 4,
           gattc_offset = 0, gattc_write_op = BLE_GATT_OP_WRITE_REQ,
           gattc_value = [1, 255, 0, 0]\<rparr> \<and>
   (\<exists>s1. uis_step (Led_status_send uis_client0 [1, 255, 0, 0] 4 True) uis_boot = Some s1 \<and>
      tx_request (m_tx_buffer s1 ! 0) =
        \<lparr>conn_handle = 1, req_type = WRITE_REQ, gattc_handle = 7, gattc_len = 4,
         gattc_offset = 0, gattc_write_op = BLE_GATT_OP_WRITE_REQ,
         gattc_value = [1, 255, 0, 0]\<rparr> \<and>
      unat (m_tx_insert_index s1) = 1) \<and>
   tx_room [Cccd_configure 1 9 True False, Led_status_send uis_client0 [1, 255, 0, 0] 4 True,
            Write_rsp uis_client0 1 True] uis_boot \<and>
   (\<exists>s1. uis_run [Cccd_configure 1 9 True False,
              Led_status_send uis_client0 [1, 255, 0, 0] 4 True,
              Write_rsp uis_client0 1 True] uis_boot = Some s1 \<and>
      map tx_request (gattc_sent s1 @ tx_pending s1) =
        [\<lparr>conn_handle = 1, req_type = WRITE_REQ, gattc_handle = 9, gattc_len = 2,
          gattc_offset = 0, gattc_write_op = BLE_GATT_OP_WRITE_REQ, gattc_value = [1, 0]\<rparr>,
         \<lparr>conn_handle = 1, req_type = WRITE_REQ, gattc_handle = 7, gattc_len = 4,
          gattc_offset = 0, gattc_write_op = BLE_GATT_OP_WRITE_REQ,
          gattc_value = [1, 255, 0, 0]\<rparr>]) \<and>
   tx_ok (the (uis_run (replicate 7 (Cccd_configure 1 9 True False)) uis_boot)) \<and>
   length (tx_pending (the (uis_run (replicate 7 (Cccd_configure 1 9 True False)) uis_boot))) = 7 \<and>
   (\<exists>s1. uis_step (Led_status_send uis_client0 [1, 255, 0, 0] 4 True)
           (the (uis_run (replicate 7 (Cccd_configure 1 9 True False)) uis_boot)) = Some s1 \<and>
      tx_pending s1 = [] \<and> gattc_sent s1 = [])"
proof -
  let ?led = "Led_status_send uis_client0 [1, 255, 0, 0] 4 True"
  let ?m = "\<lparr>conn_handle = 1, req_type = WRITE_REQ, gattc_handle = 7, gattc_len = 4,
             gattc_offset = 0, gattc_write_op = BLE_GATT_OP_WRITE_REQ,
             gattc_value = [1, 255, 0, 0]\<rparr>"
  let ?es = "[Cccd_configure 1 9 True False, ?led, Write_rsp uis_client0 1 True]"
  let ?s7 = "the (uis_run (replicate 7 (Cccd_configure 1 9 True False)) uis_boot)"
  have h1: "peer_conn_handle uis_client0 \<noteq> BLE_CONN_HANDLE_INVALID"
    by code_simp
  have h2: "\<not> overrun ?led"
    by code_simp
  have h3: "tx_ok uis_boot"
    by code_simp
  have h4: "request_of ?led = Some ?m"
    by code_simp
  have h5: "tx_room ?es uis_boot"
    by code_simp
  have h6: "tx_ok ?s7"
    by code_simp
  have h7: "length (tx_pending ?s7) = 7"
    by code_simp
  have h8: "gattc_sent ?s7 = []"
    by code_simp
  have h9: "unat (m_tx_insert_index uis_boot) = 0" "gattc_sent uis_boot @ tx_pending uis_boot = []"
    by code_simp+
  have h10: "List.map_filter request_of ?es =
      [\<lparr>conn_handle = 1, req_type = WRITE_REQ, gattc_handle = 9, gattc_len = 2,
        gattc_offset = 0, gattc_write_op = BLE_GATT_OP_WRITE_REQ, gattc_value = [1, 0]\<rparr>, ?m]"
    by code_simp
  note t1 = tx_queue_fifo [of 1 9 True True uis_boot uis_client0 "[1, 255, 0, 0]" 4 ?led ?m ?es]
  note t2 = tx_queue_fifo [of 1 9 True True ?s7 uis_client0 "[1, 255, 0, 0]" 4 ?led ?m "[]"]
  note a = t1 [THEN conjunct2, THEN conjunct1, THEN mp, OF conjI [OF h1 h2]]
  note b0 = t1 [THEN conjunct2, THEN conjunct2, THEN conjunct2, THEN conjunct2, THEN conjunct1,
      THEN mp, OF conjI [OF h3 conjI [OF h4 h2]]]
  have one: "(0 + 1) mod 8 = (1 :: nat)"
    by simp
  note b = b0 [unfolded h9(1) one]
  note c0 = t1 [THEN conjunct2, THEN conjunct2, THEN conjunct2, THEN conjunct2, THEN conjunct2,
      THEN conjunct1, THEN mp, OF conjI [OF h3 h5]]
  from c0 obtain s1 where "\<exists>ms. uis_run ?es uis_boot = Some s1 \<and> tx_ok s1 \<and>
      prefix (gattc_sent uis_boot) (gattc_sent s1) \<and>
      gattc_sent s1 @ tx_pending s1 = gattc_sent uis_boot @ tx_pending uis_boot @ ms \<and>
      map tx_request ms = List.map_filter request_of ?es" ..
  then obtain ms where all: "uis_run ?es uis_boot = Some s1 \<and> tx_ok s1 \<and>
      prefix (gattc_sent uis_boot) (gattc_sent s1) \<and>
      gattc_sent s1 @ tx_pending s1 = gattc_sent uis_boot @ tx_pending uis_boot @ ms \<and>
      map tx_request ms = List.map_filter request_of ?es" ..
  note r = all [THEN conjunct1]
  note q = all [THEN conjunct2, THEN conjunct2, THEN conjunct2, THEN conjunct1]
  note m = all [THEN conjunct2, THEN conjunct2, THEN conjunct2, THEN conjunct2]
  have "gattc_sent uis_boot @ tx_pending uis_boot @ ms = (gattc_sent uis_boot @ tx_pending uis_boot) @ ms"
    by (rule append_assoc [symmetric])
  then have "gattc_sent s1 @ tx_pending s1 = ms"
    by (simp only: q h9(2) append_Nil)
  then have "map tx_request (gattc_sent s1 @ tx_pending s1) =
        [\<lparr>conn_handle = 1, req_type = WRITE_REQ, gattc_handle = 9, gattc_len = 2,
          gattc_offset = 0, gattc_write_op = BLE_GATT_OP_WRITE_REQ, gattc_value = [1, 0]\<rparr>, ?m]"
    by (simp only: m h10)
  with r have "uis_run ?es uis_boot = Some s1 \<and>
      map tx_request (gattc_sent s1 @ tx_pending s1) =
        [\<lparr>conn_handle = 1, req_type = WRITE_REQ, gattc_handle = 9, gattc_len = 2,
          gattc_offset = 0, gattc_write_op = BLE_GATT_OP_WRITE_REQ, gattc_value = [1, 0]\<rparr>, ?m]"
    by (rule conjI)
  then have c: "\<exists>s1. uis_run ?es uis_boot = Some s1 \<and>
      map tx_request (gattc_sent s1 @ tx_pending s1) =
        [\<lparr>conn_handle = 1, req_type = WRITE_REQ, gattc_handle = 9, gattc_len = 2,
          gattc_offset = 0, gattc_write_op = BLE_GATT_OP_WRITE_REQ, gattc_value = [1, 0]\<rparr>, ?m]" ..
  note d0 = t2 [THEN conjunct2, THEN conjunct2, THEN conjunct2, THEN conjunct2, THEN conjunct2,
      THEN conjunct2, THEN mp, OF conjI [OF h6 conjI [OF h7 conjI [OF h4 h2]]]]
  note d = d0 [unfolded h8]
  from h1 h2 a h3 h4 b h5 c h6 h7 d show ?thesis
    by (intro conjI)
qed

text \<open>
  C9 as the specification has it fails: the code has no check for a full queue. From the
  empty queue, with the SoftDevice not taking any request, the eighth request is accepted
  like the seven before it; after it the ring shows nothing waiting, and a write response
  that would let the SoftDevice take a request finds nothing to pass on.
\<close>

theorem tx_queue_full_counterexample:
  "fst (cccd_configure 1 9 True False
          (the (uis_run (replicate 7 (Cccd_configure 1 9 True False)) uis_boot))) = NRF_SUCCESS \<and>
   map_option (\<lambda>s. length (tx_pending s))
     (uis_run (replicate 7 (Cccd_configure 1 9 True False)) uis_boot) = Some 7 \<and>
   map_option tx_pending
     (uis_run (replicate 8 (Cccd_configure 1 9 True False)) uis_boot) = Some [] \<and>
   map_option gattc_sent
     (uis_run (replicate 8 (Cccd_configure 1 9 True False) @ [Write_rsp uis_client0 1 True])
        uis_boot) = Some []"
  by code_simp



subsection \<open>Packets of this node are not taken back\<close>

text \<open>
  C8. A received packet whose first byte, the source id, is \<^verbatim>\<open>CLUSTER_ID\<close> leaves the
  whole state as it was: nothing enters the advertising buffer or the history buffer,
  nothing goes to the phone, and whatever happens afterwards happens as if the packet had
  not been received, so it is never advertised either.
\<close>

theorem self_echo_discarded:
  "userdata \<noteq> [] \<and> userdata ! 0 = CLUSTER_ID \<longrightarrow>
   on_adv_report i userdata s = s \<and>
   run code (Receive i userdata # es) s = run code es s"
  by (simp add: on_adv_report_def vf_check_source_def step_def)

theorem self_echo_discarded_witness:
  "[5, 10, 1, 0 :: byte] \<noteq> [] \<and> [5, 10, 1, 0 :: byte] ! 0 = CLUSTER_ID \<and>
   on_adv_report 0 [5, 10, 1, 0] (boot []) = boot [] \<and>
   run link_code0 [Receive 0 [5, 10, 1, 0], Relay] (boot []) = run link_code0 [Relay] (boot [])"
  using self_echo_discarded [of "[5, 10, 1, 0]" 0 "boot []" link_code0 "[Relay]"]
  by (simp add: CLUSTER_ID_def)

subsection \<open>The packet number is a byte\<close>

lemma submits_append: "submits (es @ fs) = submits es + submits fs"
  by (simp add: submits_def)

lemma byte_wrap: "x + 1 + of_nat 255 = x" for x :: byte
  by simp

lemma byte_no_wrap: "n < 255 \<Longrightarrow> x + 1 + of_nat n \<noteq> x" for x :: byte
proof -
  assume "n < 255"
  then have "(of_nat (Suc n) :: byte) \<noteq> 0"
    by (intro byte_of_nat_neq_0) simp_all
  then show ?thesis
    by (simp add: add.assoc add.commute [of 1])
qed

text \<open>
  C10. \<^verbatim>\<open>vf_adv_thingy_data\<close> adds one to \<^verbatim>\<open>g_packetID\<close> in a byte, and no other
  event changes it: after any sequence of events the counter has moved by the number of
  local events in it, modulo 256. The block that a local event adds to a well-formed
  buffer with a free block carries \<^verbatim>\<open>CLUSTER_ID\<close>, \<^verbatim>\<open>SINK_ID\<close> and the value the
  counter had. So when a local event has added a block, and 255 more local events happen
  among any other events, the block that the next local event adds has the same three
  bytes as that block had; when fewer than 255 local events happen in between, the three
  bytes differ. (The packet that \<^verbatim>\<open>vf_start_broadcast_data\<close> adds on a button press
  always carries packet number 3 and is not counted.)
\<close>

theorem packet_id_wraps:
  "g_packetID (vf_adv_thingy_data code d s) = g_packetID s + 1 \<and>
   g_packetID (run code es s) = g_packetID s + of_nat (submits es) \<and>
   (pool_wf s \<and> free_slot s = Some pos \<longrightarrow>
      used (vf_adv_thingy_data code d s) pos \<and>
      identity (vf_adv_thingy_data code d s) pos = (CLUSTER_ID, SINK_ID, g_packetID s)) \<and>
   (pool_wf s \<and> free_slot s = Some pos \<and>
    pool_wf (run code es (vf_adv_thingy_data code d s)) \<and>
    free_slot (run code es (vf_adv_thingy_data code d s)) = Some pos' \<and>
    submits es = 255 \<longrightarrow>
      identity (vf_adv_thingy_data code d' (run code es (vf_adv_thingy_data code d s))) pos' =
      identity (vf_adv_thingy_data code d s) pos) \<and>
   (pool_wf s \<and> free_slot s = Some pos \<and>
    pool_wf (run code es (vf_adv_thingy_data code d s)) \<and>
    free_slot (run code es (vf_adv_thingy_data code d s)) = Some pos' \<and>
    submits es < 255 \<longrightarrow>
      identity (vf_adv_thingy_data code d' (run code es (vf_adv_thingy_data code d s))) pos' \<noteq>
      identity (vf_adv_thingy_data code d s) pos)"
proof -
  let ?s1 = "vf_adv_thingy_data code d s"
  let ?s2 = "run code es ?s1"
  have stored: "used (vf_adv_thingy_data code x t) q \<and>
      identity (vf_adv_thingy_data code x t) q = (CLUSTER_ID, SINK_ID, g_packetID t)"
    if "pool_wf t" "free_slot t = Some q" for x t q
  proof -
    from that(1) have pc: "pool_chain t (chain t)"
      by (simp add: pool_wf_def)
    note a = vf_adv_thingy_data_stored [OF pc that(2), of code x]
    from free_slot_Some [OF that(2)] have "q < 16"
      by simp
    with pool_chain_used [OF a(1), of q] have "used (vf_adv_thingy_data code x t) q"
      by simp
    with a(2) show ?thesis
      by simp
  qed
  have cnt: "g_packetID ?s2 = g_packetID s + 1 + of_nat (submits es)"
    by (simp only: run_packetID vf_adv_thingy_data_packetID)
  have c1: "g_packetID (vf_adv_thingy_data code d s) = g_packetID s + 1"
    by (rule vf_adv_thingy_data_packetID)
  have c2: "g_packetID (run code es s) = g_packetID s + of_nat (submits es)"
    by (rule run_packetID)
  have c3: "pool_wf s \<and> free_slot s = Some pos \<longrightarrow>
      used ?s1 pos \<and> identity ?s1 pos = (CLUSTER_ID, SINK_ID, g_packetID s)"
    using stored [of s pos d] by simp
  have c4: "pool_wf s \<and> free_slot s = Some pos \<and> pool_wf ?s2 \<and> free_slot ?s2 = Some pos' \<and>
      submits es = 255 \<longrightarrow>
      identity (vf_adv_thingy_data code d' ?s2) pos' = identity ?s1 pos"
  proof
    assume a: "pool_wf s \<and> free_slot s = Some pos \<and> pool_wf ?s2 \<and> free_slot ?s2 = Some pos' \<and>
      submits es = 255"
    then have "g_packetID ?s2 = g_packetID s"
      by (simp only: cnt byte_wrap)
    with a stored [of s pos d] stored [of ?s2 pos' d']
    show "identity (vf_adv_thingy_data code d' ?s2) pos' = identity ?s1 pos"
      by simp
  qed
  have c5: "pool_wf s \<and> free_slot s = Some pos \<and> pool_wf ?s2 \<and> free_slot ?s2 = Some pos' \<and>
      submits es < 255 \<longrightarrow>
      identity (vf_adv_thingy_data code d' ?s2) pos' \<noteq> identity ?s1 pos"
  proof
    assume a: "pool_wf s \<and> free_slot s = Some pos \<and> pool_wf ?s2 \<and> free_slot ?s2 = Some pos' \<and>
      submits es < 255"
    then have "g_packetID ?s2 \<noteq> g_packetID s"
      by (simp only: cnt) (simp add: byte_no_wrap)
    with a stored [of s pos d] stored [of ?s2 pos' d']
    show "identity (vf_adv_thingy_data code d' ?s2) pos' \<noteq> identity ?s1 pos"
      by simp
  qed
  from c1 c2 c3 c4 c5 show ?thesis
    by (intro conjI)
qed

theorem packet_id_wraps_witness:
  "pool_wf (boot []) \<and> free_slot (boot []) = Some 0 \<and>
   used (vf_adv_thingy_data link_code0 thingy0 (boot [])) 0 \<and>
   identity (vf_adv_thingy_data link_code0 thingy0 (boot [])) 0 = (CLUSTER_ID, SINK_ID, 0) \<and>
   pool_wf (run link_code0
      ([Relay, Relay] @ concat (replicate 255 [Submit thingy0, Relay, Relay]))
      (vf_adv_thingy_data link_code0 thingy0 (boot []))) \<and>
   free_slot (run link_code0
      ([Relay, Relay] @ concat (replicate 255 [Submit thingy0, Relay, Relay]))
      (vf_adv_thingy_data link_code0 thingy0 (boot []))) = Some 0 \<and>
   submits ([Relay, Relay] @ concat (replicate 255 [Submit thingy0, Relay, Relay])) = 255 \<and>
   identity (vf_adv_thingy_data link_code0 thingy0 (run link_code0
      ([Relay, Relay] @ concat (replicate 255 [Submit thingy0, Relay, Relay]))
      (vf_adv_thingy_data link_code0 thingy0 (boot [])))) 0 =
     identity (vf_adv_thingy_data link_code0 thingy0 (boot [])) 0 \<and>
   pool_wf (run link_code0 [Relay, Relay] (vf_adv_thingy_data link_code0 thingy0 (boot []))) \<and>
   free_slot (run link_code0 [Relay, Relay]
      (vf_adv_thingy_data link_code0 thingy0 (boot []))) = Some 0 \<and>
   submits [Relay, Relay] < 255 \<and>
   identity (vf_adv_thingy_data link_code0 thingy0
      (run link_code0 [Relay, Relay] (vf_adv_thingy_data link_code0 thingy0 (boot [])))) 0 \<noteq>
     identity (vf_adv_thingy_data link_code0 thingy0 (boot [])) 0"
proof -
  let ?s1 = "vf_adv_thingy_data link_code0 thingy0 (boot [])"
  let ?cyc = "concat (replicate 255 [Submit thingy0, Relay, Relay])"
  let ?t = "run link_code0 [Relay, Relay] ?s1"
  let ?u = "run link_code0 ([Relay, Relay] @ ?cyc) ?s1"
  have t: "?t = run link_code0 [Submit thingy0, Relay, Relay] (boot [])"
    by (simp add: step_def)
  have u: "?u = run link_code0 ?cyc ?t"
    by (rule run_append)
  note i1 = idle_cycle [OF pool_chain_boot hist_wf_boot, of link_code0 thingy0 "[]", folded t]
  note i2 = idle_cycles [OF i1 [THEN conjunct1] i1 [THEN conjunct2], of link_code0 255 thingy0,
      folded u]
  have h1: "pool_wf (boot [])"
    by (rule pool_wfI [OF pool_chain_boot])
  have h2: "free_slot (boot []) = Some 0"
    by (rule pool_chain_Nil_free [OF pool_chain_boot])
  have h3: "pool_wf ?u"
    by (rule pool_wfI [OF i2 [THEN conjunct1]])
  have h4: "free_slot ?u = Some 0"
    by (rule pool_chain_Nil_free [OF i2 [THEN conjunct1]])
  have h5: "submits ([Relay, Relay] @ ?cyc) = 255"
    by (simp only: submits_append submits_cycles) (simp add: submits_def is_Submit_def)
  have h6: "pool_wf ?t"
    by (rule pool_wfI [OF i1 [THEN conjunct1]])
  have h7: "free_slot ?t = Some 0"
    by (rule pool_chain_Nil_free [OF i1 [THEN conjunct1]])
  have h8: "submits [Relay, Relay] < 255"
    by (simp add: submits_def is_Submit_def)
  have h9: "g_packetID (boot []) = 0"
    by (simp add: boot_def)
  note a = packet_id_wraps [of link_code0 thingy0 "boot []" "[Relay, Relay] @ ?cyc" 0 0 thingy0]
  note b = packet_id_wraps [of link_code0 thingy0 "boot []" "[Relay, Relay]" 0 0 thingy0]
  note a3 = a [THEN conjunct2, THEN conjunct2, THEN conjunct1, THEN mp, OF conjI [OF h1 h2],
      unfolded h9]
  note a4 = a [THEN conjunct2, THEN conjunct2, THEN conjunct2, THEN conjunct1, THEN mp,
      OF conjI [OF h1 conjI [OF h2 conjI [OF h3 conjI [OF h4 h5]]]]]
  note b5 = b [THEN conjunct2, THEN conjunct2, THEN conjunct2, THEN conjunct2, THEN mp,
      OF conjI [OF h1 conjI [OF h2 conjI [OF h6 conjI [OF h7 h8]]]]]
  from h1 h2 a3 [THEN conjunct1] a3 [THEN conjunct2] h3 h4 h5 a4 h6 h7 h8 b5 show ?thesis
    by (intro conjI)
qed

subsection \<open>One advertisement\<close>

text \<open>
  C7. When the advertising buffer is well formed and not empty and the block at
  \<^verbatim>\<open>g_userdata_currpos\<close> is valid (its size byte is not 0) and fits the arrays it is
  copied to, one run of \<^verbatim>\<open>vf_relay_adv_data3\<close> puts behind the encoded flags and name
  of the advertising packet the size byte, the type \<^verbatim>\<open>0xFF\<close> and the broadcast data of
  the block with one added to its fourth byte, the hop count (a block with fewer than four
  bytes of data has none, and is copied as it is); the packet ends there, and it is the
  packet printed. Byte 3 of the block, the number of advertisements left, is one less
  afterwards, and every other byte from offset 3 on, of this block and of every other
  block, is as before: size, source id, destination id, packet number, hop count and user
  data of the stored record are not changed.
\<close>

theorem relay_tick_payload:
  "pool_wf s \<and> chain s \<noteq> [] \<and> cur = g_userdata_currpos s \<and> blk s cur 4 \<noteq> 0 \<and>
   unat (blk s cur 4) \<le> 28 \<and> length (relay_data s) = 32 \<and> length (adv_data_buf s) = 31 \<and>
   org_adv_data_size s + unat (blk s cur 4) + 1 \<le> 31 \<longrightarrow>
     uart_relay (vf_relay_adv_data3 s) =
       uart_relay s @
         [(cur, take (org_adv_data_size s) (adv_data_buf s) @ [blk s cur 4, 0xFF] @
                (record_bytes s cur)[3 := record_bytes s cur ! 3 + 1])] \<and>
     take (adv_len (vf_relay_adv_data3 s)) (adv_data_buf (vf_relay_adv_data3 s)) =
       take (org_adv_data_size s) (adv_data_buf s) @ [blk s cur 4, 0xFF] @
         (record_bytes s cur)[3 := record_bytes s cur ! 3 + 1] \<and>
     adv_len (vf_relay_adv_data3 s) = org_adv_data_size s + unat (blk s cur 4) + 1 \<and>
     blk (vf_relay_adv_data3 s) cur 3 = blk s cur 3 - 1 \<and>
     (\<forall>q<16. \<forall>k<32. 3 \<le> k \<and> (q \<noteq> cur \<or> k \<noteq> 3) \<longrightarrow>
        blk (vf_relay_adv_data3 s) q k = blk s q k) \<and>
     record_bytes (vf_relay_adv_data3 s) cur = record_bytes s cur"
proof
  let ?t = "vf_relay_adv_data3 s"
  let ?pl = "[blk s cur 4, 0xFF] @ (record_bytes s cur)[3 := record_bytes s cur ! 3 + 1]"
  let ?org = "org_adv_data_size s"
  assume a: "pool_wf s \<and> chain s \<noteq> [] \<and> cur = g_userdata_currpos s \<and> blk s cur 4 \<noteq> 0 \<and>
   unat (blk s cur 4) \<le> 28 \<and> length (relay_data s) = 32 \<and> length (adv_data_buf s) = 31 \<and>
   org_adv_data_size s + unat (blk s cur 4) + 1 \<le> 31"
  note wf = a [THEN conjunct1]
  note ne = a [THEN conjunct2, THEN conjunct1]
  note cur = a [THEN conjunct2, THEN conjunct2, THEN conjunct1]
  note sz = a [THEN conjunct2, THEN conjunct2, THEN conjunct2, THEN conjunct1]
    a [THEN conjunct2, THEN conjunct2, THEN conjunct2, THEN conjunct2, THEN conjunct1]
  note rd = a [THEN conjunct2, THEN conjunct2, THEN conjunct2, THEN conjunct2, THEN conjunct2,
      THEN conjunct1]
  note l31 = a [THEN conjunct2, THEN conjunct2, THEN conjunct2, THEN conjunct2, THEN conjunct2,
      THEN conjunct2, THEN conjunct1]
  note fit = a [THEN conjunct2, THEN conjunct2, THEN conjunct2, THEN conjunct2, THEN conjunct2,
      THEN conjunct2, THEN conjunct2]
  from wf have pc: "pool_chain s (chain s)"
    by (simp add: pool_wf_def)
  from pc ne have curc: "cur \<in> set (chain s)"
    by (simp add: pool_chain_def cur)
  have c16: "cur < 16"
    by (rule pool_chain_lt [OF pc curc])
  from pc have len: "length (garr_userdata s) = 512"
    by (simp add: pool_chain_def)
  note v = vf_relay_adv_data3_valid [OF pc ne sz(1) [unfolded cur]]
  from curc obtain xs ys where c: "chain s = xs @ g_userdata_currpos s # ys"
    using split_list cur by fastforce
  note sp = vf_relay_adv_data3_send_pool [OF pc [unfolded c] refl]
  note pl = vf_relay_adv_data3_copy_payload [OF len c16 [unfolded cur] rd
      sz [unfolded cur], folded cur]
  have fit': "?org + unat (blk s cur 4) + 1 \<le> length (adv_data_buf s)"
    using fit l31 by simp
  have l16: "length (adv_data_buf s) < 65536"
    using l31 by simp
  note p1 = pl(1) [OF fit' l16] and p2 = pl(2) [OF fit' l16] and p3 = pl(3) [OF fit' l16]
    and p5 = pl(5) [OF fit' l16]
  have log: "uart_relay ?t = uart_relay s @ [(cur, take ?org (adv_data_buf s) @ ?pl)]"
    by (simp only: v(1) sp(6) p3)
  have alen: "adv_len ?t = ?org + length ?pl"
    by (simp only: v(1) sp(5) p2)
  have "adv_data_buf ?t = (take ?org (adv_data_buf s) @ ?pl) @
      drop (?org + length ?pl) (adv_data_buf s)"
    by (simp only: v(1) sp(4) p1 append_assoc)
  moreover have "length (take ?org (adv_data_buf s) @ ?pl) = ?org + length ?pl"
    using fit' by simp
  ultimately have buf: "take (adv_len ?t) (adv_data_buf ?t) = take ?org (adv_data_buf s) @ ?pl"
    by (simp only: alen append_eq_conv_conj) simp
  have alen': "adv_len ?t = ?org + unat (blk s cur 4) + 1"
    by (simp only: alen p5)
  have b3: "blk ?t cur 3 = blk s cur 3 - 1"
    using v(3) [OF c16, of 3] cur by simp
  have fr: "\<forall>q<16. \<forall>k<32. 3 \<le> k \<and> (q \<noteq> cur \<or> k \<noteq> 3) \<longrightarrow> blk ?t q k = blk s q k"
    using v(3) cur by auto
  have b4: "blk ?t cur 4 = blk s cur 4"
    using v(3) [OF c16, of 4] by simp
  have "blk ?t cur (5 + k) = blk s cur (5 + k)" if "k < unat (blk s cur 4) - 1" for k
    using v(3) [OF c16, of "5 + k"] that sz(2) by simp
  then have rb: "record_bytes ?t cur = record_bytes s cur"
    by (simp add: record_bytes_def b4)
  from log buf alen' b3 fr rb
  show "uart_relay ?t = uart_relay s @ [(cur, take ?org (adv_data_buf s) @ ?pl)] \<and>
     take (adv_len ?t) (adv_data_buf ?t) = take ?org (adv_data_buf s) @ ?pl \<and>
     adv_len ?t = ?org + unat (blk s cur 4) + 1 \<and>
     blk ?t cur 3 = blk s cur 3 - 1 \<and>
     (\<forall>q<16. \<forall>k<32. 3 \<le> k \<and> (q \<noteq> cur \<or> k \<noteq> 3) \<longrightarrow> blk ?t q k = blk s q k) \<and>
     record_bytes ?t cur = record_bytes s cur"
    by (intro conjI)
qed

theorem relay_tick_payload_witness:
  "pool_wf (snd (vf_add_packet_to_buffer3 [1, 2, 3, 0, 9] (boot [2, 1, 6]))) \<and>
   chain (snd (vf_add_packet_to_buffer3 [1, 2, 3, 0, 9] (boot [2, 1, 6]))) \<noteq> [] \<and>
   0 = g_userdata_currpos (snd (vf_add_packet_to_buffer3 [1, 2, 3, 0, 9] (boot [2, 1, 6]))) \<and>
   blk (snd (vf_add_packet_to_buffer3 [1, 2, 3, 0, 9] (boot [2, 1, 6]))) 0 4 = 6 \<and>
   record_bytes (snd (vf_add_packet_to_buffer3 [1, 2, 3, 0, 9] (boot [2, 1, 6]))) 0 =
     [1, 2, 3, 0, 9] \<and>
   uart_relay (vf_relay_adv_data3 (snd (vf_add_packet_to_buffer3 [1, 2, 3, 0, 9] (boot [2, 1, 6])))) =
     [(0, [2, 1, 6, 6, 0xFF, 1, 2, 3, 1, 9])] \<and>
   adv_len (vf_relay_adv_data3 (snd (vf_add_packet_to_buffer3 [1, 2, 3, 0, 9] (boot [2, 1, 6])))) = 10 \<and>
   blk (vf_relay_adv_data3 (snd (vf_add_packet_to_buffer3 [1, 2, 3, 0, 9] (boot [2, 1, 6])))) 0 3 = 1 \<and>
   record_bytes (vf_relay_adv_data3 (snd (vf_add_packet_to_buffer3 [1, 2, 3, 0, 9] (boot [2, 1, 6])))) 0 =
     [1, 2, 3, 0, 9]"
proof -
  let ?d = "[1, 2, 3, 0, 9] :: byte list" and ?enc = "[2, 1, 6] :: byte list"
  let ?s = "snd (vf_add_packet_to_buffer3 ?d (boot ?enc))"
  have dl: "length ?d \<le> 27" and enc: "length ?enc + length ?d + 2 \<le> 31"
    by simp_all
  note f = first_packet [OF dl enc]
  have h1: "pool_wf ?s" by (rule f(3))
  have h2: "chain ?s \<noteq> []" by (simp add: f(4))
  have h3: "0 = g_userdata_currpos ?s" by (simp add: f(5))
  have h4: "blk ?s 0 4 = 6" by (simp add: f(10))
  have h5: "record_bytes ?s 0 = ?d" by (rule f(11))
  have g4: "blk ?s 0 4 \<noteq> 0" "unat (blk ?s 0 4) \<le> 28" by (simp_all add: h4)
  have g6: "length (relay_data ?s) = 32" by (simp add: f(15))
  have g7: "length (adv_data_buf ?s) = 31" by (simp add: f(14))
  have g8: "org_adv_data_size ?s + unat (blk ?s 0 4) + 1 \<le> 31" by (simp add: f(13) h4)
  note t = relay_tick_payload [of ?s 0, THEN mp,
      OF conjI [OF h1 conjI [OF h2 conjI [OF h3 conjI [OF g4(1) conjI [OF g4(2)
          conjI [OF g6 conjI [OF g7 g8]]]]]]]]
  have c1: "uart_relay (vf_relay_adv_data3 ?s) = [(0, [2, 1, 6, 6, 0xFF, 1, 2, 3, 1, 9])]"
    using t [THEN conjunct1] by (simp add: f(12) f(13) f(14) h4 h5)
  have c2: "adv_len (vf_relay_adv_data3 ?s) = 10"
    using t [THEN conjunct2, THEN conjunct2, THEN conjunct1] by (simp add: f(13) h4)
  have c3: "blk (vf_relay_adv_data3 ?s) 0 3 = 1"
    using t [THEN conjunct2, THEN conjunct2, THEN conjunct2, THEN conjunct1] by (simp add: f(9))
  have c4: "record_bytes (vf_relay_adv_data3 ?s) 0 = ?d"
    using t [THEN conjunct2, THEN conjunct2, THEN conjunct2, THEN conjunct2, THEN conjunct2]
    by (simp add: h5)
  from h1 h2 h3 h4 h5 c1 c2 c3 c4 show ?thesis
    by (intro conjI)
qed

subsection \<open>A block is advertised twice\<close>




end
